theory Spec2Isabelle
  imports Main "HOL-Library.Word"
begin

section \<open>Strings, bytes and the blob digest\<close>

text \<open>
  A JavaScript string is modelled as a \<^typ>\<open>string\<close>: the sequence of its code units,
  restricted to the code units below 256. \<open>utf8\<close> is Node's UTF-8 encoding on that
  range: one byte below 128, two bytes from 128 on.
\<close>

type_synonym byte = "8 word"

definition utf8_char :: "char \<Rightarrow> byte list" where
  "utf8_char c =
     (let n = (of_char c :: nat)
      in if n < 128 then [of_nat n] else [of_nat (192 + n div 64), of_nat (128 + n mod 64)])"

definition utf8 :: "string \<Rightarrow> byte list" where
  "utf8 s = concat (map utf8_char s)"

text \<open>
  \<open>hash.digest('hex')\<close>: the 32 bytes of the digest, most significant first, two
  lowercase hexadecimal digits each.
\<close>

definition hexDigit :: "nat \<Rightarrow> char" where
  "hexDigit n = ''0123456789abcdef'' ! (n mod 16)"

definition toHex :: "256 word \<Rightarrow> string" where
  "toHex w = map (\<lambda>i. hexDigit ((unat w div 16 ^ (63 - i)) mod 16)) [0..<64]"

text \<open>
  \<open>calculateBlobName\<close> (extension.ts, 507-512). SHA-256 itself is Node's \<open>crypto\<close>
  library and is a parameter: a function from the bytes fed to the hash object to the
  256-bit digest. The two \<open>update\<close> calls feed the bytes of the path and then the bytes
  of the content to the same hash object.
\<close>

definition calculateBlobName :: "(byte list \<Rightarrow> 256 word) \<Rightarrow> string \<Rightarrow> string \<Rightarrow> string" where
  "calculateBlobName sha256 filePath content = toHex (sha256 (utf8 filePath @ utf8 content))"

section \<open>The content splitter\<close>

record Blob =
  path :: string
  content :: string
  sourcePath :: string

definition LF :: char where
  "LF = CHR 0x0A"

definition CR :: char where
  "CR = CHR 0x0D"

text \<open>
  \<open>s.substring(a, b)\<close>: both indices are clamped to the length of the string and
  swapped when they come in the wrong order.
\<close>

definition substring :: "string \<Rightarrow> nat \<Rightarrow> nat \<Rightarrow> string" where
  "substring s a b =
     (let a' = min a (length s); b' = min b (length s)
      in take (max a' b' - min a' b') (drop (min a' b') s))"

text \<open>
  The first loop of \<open>splitFileContent\<close> (extension.ts, 667-681): \<open>i\<close> walks over the
  code units, \<open>start\<close> is where the current line began, \<open>lines\<close> collects the finished
  lines. A carriage return directly followed by a line feed ends one line, and the loop
  skips the line feed.
\<close>

function scanLines :: "string \<Rightarrow> nat \<Rightarrow> nat \<Rightarrow> string list \<Rightarrow> nat \<times> string list" where
  "scanLines content' i start lines =
     (if i < length content' then
        (if content' ! i = LF then
           scanLines content' (i + 1) (i + 1) (lines @ [substring content' start (i + 1)])
         else if content' ! i = CR then
           (if i + 1 < length content' \<and> content' ! (i + 1) = LF then
              scanLines content' (i + 2) (i + 2) (lines @ [substring content' start (i + 2)])
            else
              scanLines content' (i + 1) (i + 1) (lines @ [substring content' start (i + 1)]))
         else scanLines content' (i + 1) start lines)
      else (start, lines))"
  by pat_completeness auto
termination
  by (relation "measure (\<lambda>(content', i, start, lines). length content' - i)") auto

declare scanLines.simps [simp del]

text \<open>The lines of a content string: the loop, then the trailing fragment (683-685).\<close>

definition splitLines :: "string \<Rightarrow> string list" where
  "splitLines content' =
     (case scanLines content' 0 0 [] of
        (start, lines) \<Rightarrow>
          if start < length content' then lines @ [drop start content'] else lines)"

text \<open>A number as a template literal prints it: its decimal digits.\<close>

definition digitChar :: "nat \<Rightarrow> char" where
  "digitChar d = ''0123456789'' ! (d mod 10)"

fun decimal :: "nat \<Rightarrow> string" where
  "decimal n = (if 10 \<le> n then decimal (n div 10) else []) @ [digitChar n]"

declare decimal.simps [simp del]

text \<open>
  \<open>Math.ceil(a / b)\<close> for natural numbers \<open>a\<close> and \<open>b \<ge> 1\<close> (the floating point
  quotient is exact enough for every count below \<open>2^53\<close>).
\<close>

definition ceilDiv :: "nat \<Rightarrow> nat \<Rightarrow> nat" where
  "ceilDiv a b = (a + b - 1) div b"

text \<open>\<open>xs.slice(a, b)\<close> for \<open>0 \<le> a\<close>: indices past the end are clamped.\<close>

definition slice :: "'a list \<Rightarrow> nat \<Rightarrow> nat \<Rightarrow> 'a list" where
  "slice xs a b = take (b - a) (drop a xs)"

text \<open>
  \<open>splitFileContent\<close> (extension.ts, 663-706). \<open>maxLinesPerBlob\<close> is a field of the
  index manager; here it is the first argument, a natural number. With
  \<open>maxLinesPerBlob = 0\<close> and a content of at least one line the number of chunks is
  \<open>Infinity\<close> and the chunk loop never ends: the result is \<open>None\<close>.
\<close>

definition splitFileContent :: "nat \<Rightarrow> string \<Rightarrow> string \<Rightarrow> Blob list option" where
  "splitFileContent maxLinesPerBlob filePath content' =
     (let lines = splitLines content';
          totalLines = length lines
      in if totalLines \<le> maxLinesPerBlob then
           Some [\<lparr>path = filePath, content = content', sourcePath = filePath\<rparr>]
         else if maxLinesPerBlob = 0 then None
         else
           (let numChunks = ceilDiv totalLines maxLinesPerBlob
            in Some (map (\<lambda>chunkIdx.
                 let startLine = chunkIdx * maxLinesPerBlob;
                     endLine = min (startLine + maxLinesPerBlob) totalLines;
                     chunkLines = slice lines startLine endLine;
                     chunkContent = concat chunkLines;
                     chunkPath = filePath @ ''#chunk'' @ decimal (chunkIdx + 1)
                                   @ ''of'' @ decimal numChunks
                 in \<lparr>path = chunkPath, content = chunkContent, sourcePath = filePath\<rparr>)
               [0..<numChunks])))"

text \<open>
  Reference notions for stating what the splitter does. \<open>linesFrom cur rest\<close> reads
  \<open>rest\<close> character by character with \<open>cur\<close> the line read so far; \<open>lineEnd l\<close> is what
  is left of \<open>l\<close> after its longest prefix free of line feeds and carriage returns (the
  terminator of a line); \<open>plain\<close> says a string has neither; \<open>crlfKept\<close> says no line
  ending in a lone carriage return is followed by a line starting with a line feed.
\<close>

fun linesFrom :: "string \<Rightarrow> string \<Rightarrow> string list" where
  "linesFrom cur [] = (if cur = [] then [] else [cur])"
| "linesFrom cur (c # cs) =
     (if c = LF then (cur @ [c]) # linesFrom [] cs
      else if c = CR then
        (case cs of
           [] \<Rightarrow> [cur @ [c]]
         | d # ds \<Rightarrow> if d = LF then (cur @ [c, d]) # linesFrom [] ds
                     else (cur @ [c]) # linesFrom [] cs)
      else linesFrom (cur @ [c]) cs)"

definition lineEnd :: "string \<Rightarrow> string" where
  "lineEnd l = dropWhile (\<lambda>c. c \<noteq> LF \<and> c \<noteq> CR) l"

fun crlfKept :: "string list \<Rightarrow> bool" where
  "crlfKept (a # b # r) = (\<not> (lineEnd a = [CR] \<and> hd b = LF) \<and> crlfKept (b # r))"
| "crlfKept _ = True"

definition plain :: "string \<Rightarrow> bool" where
  "plain cur = (\<forall>c\<in>set cur. c \<noteq> LF \<and> c \<noteq> CR)"

section \<open>The index store\<close>

record IndexStore =
  version :: nat
  blob_names :: "string list"
  file_map :: "(string \<times> string list) list"

text \<open>
  A \<open>Record<string, string[]>\<close> and a \<open>Map\<close> are association lists in insertion
  order. \<open>assign k v m\<close> is \<open>m[k] = v\<close> (and \<open>Map.set\<close>): a key already present keeps
  its place, a new key goes last. A \<open>Set\<close> is the list of its members in insertion
  order; \<open>newSet xs\<close> is \<open>new Set(xs)\<close>.

  A \<open>Record\<close> is a plain object: reading \<open>m[k]\<close> for a key that \<open>m\<close> does not hold finds
  the member of \<open>Object.prototype\<close> of that name, when there is one, and that member is
  truthy. \<open>truthyAt m k\<close> is the test \<open>m[k]\<close> as a condition (an array, even an empty one,
  is truthy). \<open>indexProject\<close> and \<open>indexFile\<close> read and write only at paths with an
  indexed extension, which are neither such names nor array indices (which JavaScript
  would list first); \<open>removeFileFromIndex\<close> is also called with the path of a file with
  no extension, such as a file \<open>constructor\<close> in the project root.
\<close>

definition objectPrototypeKeys :: "string list" where
  "objectPrototypeKeys =
     [''constructor'', ''hasOwnProperty'', ''isPrototypeOf'', ''propertyIsEnumerable'',
      ''toLocaleString'', ''toString'', ''valueOf'', ''__proto__'', ''__defineGetter__'',
      ''__defineSetter__'', ''__lookupGetter__'', ''__lookupSetter__'']"

definition truthyAt :: "(string \<times> 'v) list \<Rightarrow> string \<Rightarrow> bool" where
  "truthyAt m k = (map_of m k \<noteq> None \<or> k \<in> set objectPrototypeKeys)"

fun assign :: "'k \<Rightarrow> 'v \<Rightarrow> ('k \<times> 'v) list \<Rightarrow> ('k \<times> 'v) list" where
  "assign k v [] = [(k, v)]"
| "assign k v ((k', v') # m) = (if k' = k then (k, v) # m else (k', v') # assign k v m)"

definition setAdd :: "'a list \<Rightarrow> 'a \<Rightarrow> 'a list" where
  "setAdd s x = (if x \<in> set s then s else s @ [x])"

definition newSet :: "'a list \<Rightarrow> 'a list" where
  "newSet xs = foldl setAdd [] xs"

text \<open>
  What the index file holds when \<open>loadIndexStore\<close> (extension.ts, 576-598) reads it: no
  file, text that does not parse, a bare array (the legacy shape), an object whose
  \<open>blob_names\<close> is an array (its \<open>version\<close> and \<open>file_map\<close> may be missing or of the
  wrong type), or any other JSON value.
\<close>

datatype IndexDocument =
    NoDocument
  | Unparsable
  | BareArray "string list"
  | StoreObject "nat option" "string list" "(string \<times> string list) list option"
  | OtherValue

definition emptyStore :: IndexStore where
  "emptyStore = \<lparr>version = 1, blob_names = [], file_map = []\<rparr>"

fun loadIndexStore :: "IndexDocument \<Rightarrow> IndexStore" where
  "loadIndexStore NoDocument = emptyStore"
| "loadIndexStore Unparsable = emptyStore"
| "loadIndexStore (BareArray parsed) = \<lparr>version = 1, blob_names = parsed, file_map = []\<rparr>"
| "loadIndexStore (StoreObject v names fm) =
     \<lparr>version = (case v of Some n \<Rightarrow> n | None \<Rightarrow> 1),
      blob_names = names,
      file_map = (case fm of Some m \<Rightarrow> m | None \<Rightarrow> [])\<rparr>"
| "loadIndexStore OtherValue = emptyStore"

text \<open>
  \<open>saveIndexStore\<close> (600-608) writes the whole store or throws. \<open>writeError\<close> is what
  \<open>writeFileSync\<close> does in this run: \<open>None\<close> when it writes, \<open>Some msg\<close> when it throws.
\<close>

definition saveIndexStore :: "string option \<Rightarrow> IndexStore \<Rightarrow> string + IndexDocument" where
  "saveIndexStore writeError store =
     (case writeError of
        Some msg \<Rightarrow> Inl msg
      | None \<Rightarrow> Inr (StoreObject (Some (version store)) (blob_names store) (Some (file_map store))))"

text \<open>\<open>collectBlobNames\<close> (622-630).\<close>

definition collectBlobNames :: "(string \<times> string list) list \<Rightarrow> string list" where
  "collectBlobNames fileMap = foldl (\<lambda>names hashes. foldl setAdd names hashes) [] (map snd fileMap)"

section \<open>Uploading in batches\<close>

text \<open>
  What one batch upload gives back (1075-1083 and 953-961): the request, retries
  included, threw (or the body had no \<open>blob_names\<close> to read), or it returned and
  \<open>result.blob_names || []\<close> is the list given. \<open>post batchIdx batchBlobs\<close> is the
  remote store's answer to the request of batch \<open>batchIdx\<close> (from 0).
\<close>

datatype UploadReply = Threw | Replied "string list"

type_synonym Remote = "nat \<Rightarrow> Blob list \<Rightarrow> UploadReply"

text \<open>
  The checks on a reply (1083-1098): an empty list fails the batch; so does a reply
  whose set of names is not the expected set. \<open>Some names\<close> is an accepted reply.
\<close>

definition checkBatch :: "UploadReply \<Rightarrow> string list \<Rightarrow> string list option" where
  "checkBatch reply expectedBatchNames =
     (case reply of
        Threw \<Rightarrow> None
      | Replied batchBlobNames \<Rightarrow>
          if batchBlobNames = [] then None
          else
            (let expectedSet = newSet expectedBatchNames;
                 returnedSet = newSet batchBlobNames
             in if length expectedSet \<noteq> length returnedSet then None
                else if list_ex (\<lambda>hash. hash \<notin> set returnedSet) expectedSet then None
                else Some batchBlobNames))"

definition batchOf :: "nat \<Rightarrow> 'a list \<Rightarrow> nat \<Rightarrow> 'a list" where
  "batchOf batchSize xs batchIdx =
     (let startIdx = batchIdx * batchSize;
          endIdx = min (startIdx + batchSize) (length xs)
      in slice xs startIdx endIdx)"

definition batchOutcome :: "Remote \<Rightarrow> nat \<Rightarrow> Blob list \<Rightarrow> string list \<Rightarrow> nat \<Rightarrow> string list option" where
  "batchOutcome post batchSize blobsToUpload hashes batchIdx =
     checkBatch (post batchIdx (batchOf batchSize blobsToUpload batchIdx))
       (batchOf batchSize hashes batchIdx)"

text \<open>
  One turn of the batch loop, on the names uploaded so far, the failed batches (counted
  from 1) and the batches sent; then the whole loop. \<open>indexFile\<close> runs the same loop and
  keeps only the failed batches.
\<close>

definition uploadBatch ::
  "Remote \<Rightarrow> nat \<Rightarrow> Blob list \<Rightarrow> string list
     \<Rightarrow> string list \<times> nat list \<times> Blob list list \<Rightarrow> nat
     \<Rightarrow> string list \<times> nat list \<times> Blob list list" where
  "uploadBatch post batchSize blobsToUpload hashes acc batchIdx =
     (case acc of (uploadedBlobNames, failedBatches, sent) \<Rightarrow>
        (case batchOutcome post batchSize blobsToUpload hashes batchIdx of
           None \<Rightarrow>
             (uploadedBlobNames, failedBatches @ [batchIdx + 1],
              sent @ [batchOf batchSize blobsToUpload batchIdx])
         | Some batchBlobNames \<Rightarrow>
             (uploadedBlobNames @ batchBlobNames, failedBatches,
              sent @ [batchOf batchSize blobsToUpload batchIdx])))"

definition uploadAll ::
  "Remote \<Rightarrow> nat \<Rightarrow> Blob list \<Rightarrow> string list \<Rightarrow> string list \<times> nat list \<times> Blob list list" where
  "uploadAll post batchSize blobsToUpload hashes =
     (let totalBatches = ceilDiv (length blobsToUpload) batchSize
      in foldl (uploadBatch post batchSize blobsToUpload hashes) ([], [], []) [0..<totalBatches])"

section \<open>The index reconciler\<close>

datatype Status = Success | PartialSuccess | Error | Skipped

record IndexResult =
  status :: Status
  message :: string
  stats :: "(nat \<times> nat \<times> nat) option"

text \<open>
  What a run leaves behind: the result it returns (\<open>Inl msg\<close> when it throws instead),
  the index file afterwards, the store it wrote when \<open>saveIndexStore\<close> ran and did not
  throw, and the batches it sent to the remote store. A write that throws is taken to
  leave the file as it was.
\<close>

record Run =
  outcome :: "string + IndexResult"
  document :: IndexDocument
  saved :: "IndexStore option"
  posted :: "Blob list list"

definition plainResult :: "Status \<Rightarrow> string \<Rightarrow> IndexResult" where
  "plainResult st msg = \<lparr>status = st, message = msg, stats = None\<rparr>"

text \<open>The hashing loop of \<open>indexProject\<close> (1041-1048), one blob at a time.\<close>

definition hashBlob ::
  "(byte list \<Rightarrow> 256 word) \<Rightarrow> (string \<times> Blob) list \<times> (string \<times> string list) list \<Rightarrow> Blob
     \<Rightarrow> (string \<times> Blob) list \<times> (string \<times> string list) list" where
  "hashBlob sha256 acc blob =
     (case acc of (blobHashMap, nextFileMap) \<Rightarrow>
        (let blobHash = calculateBlobName sha256 (path blob) (content blob);
             fm = (if map_of nextFileMap (sourcePath blob) = None
                   then assign (sourcePath blob) [] nextFileMap else nextFileMap)
         in (assign blobHash blob blobHashMap,
             (case map_of fm (sourcePath blob) of
                Some hashes \<Rightarrow> assign (sourcePath blob) (hashes @ [blobHash]) fm
              | None \<Rightarrow> fm))))"

text \<open>The filter over the candidate file map (1121-1126).\<close>

definition filterFileMap ::
  "string list \<Rightarrow> (string \<times> string list) list \<Rightarrow> (string \<times> string list) list" where
  "filterFileMap availableBlobNames nextFileMap =
     foldl (\<lambda>filteredFileMap filePath.
        (case map_of nextFileMap filePath of
           None \<Rightarrow> filteredFileMap
         | Some hs \<Rightarrow>
             (let hashes = filter (\<lambda>hash. hash \<in> set availableBlobNames) hs
              in if hashes \<noteq> [] then assign filePath hashes filteredFileMap
                 else filteredFileMap)))
       [] (map fst nextFileMap)"

text \<open>
  The stages of \<open>indexProject\<close> before the upload (1036-1055), by name: the two maps
  built from the blobs, the candidate digests, those the loaded store knows, the new
  ones, and the blobs to upload.
\<close>

definition hashAll ::
  "(byte list \<Rightarrow> 256 word) \<Rightarrow> Blob list \<Rightarrow> (string \<times> Blob) list \<times> (string \<times> string list) list" where
  "hashAll sha256 blobs = foldl (hashBlob sha256) ([], []) blobs"

definition allBlobHashes :: "(byte list \<Rightarrow> 256 word) \<Rightarrow> Blob list \<Rightarrow> string list" where
  "allBlobHashes sha256 blobs = newSet (map fst (fst (hashAll sha256 blobs)))"

definition existingHashes :: "(byte list \<Rightarrow> 256 word) \<Rightarrow> IndexStore \<Rightarrow> Blob list \<Rightarrow> string list" where
  "existingHashes sha256 store blobs =
     newSet (filter (\<lambda>hash. hash \<in> set (newSet (blob_names store))) (allBlobHashes sha256 blobs))"

definition newHashes :: "(byte list \<Rightarrow> 256 word) \<Rightarrow> IndexStore \<Rightarrow> Blob list \<Rightarrow> string list" where
  "newHashes sha256 store blobs =
     filter (\<lambda>hash. hash \<notin> set (newSet (blob_names store))) (allBlobHashes sha256 blobs)"

definition blobsToUpload :: "(byte list \<Rightarrow> 256 word) \<Rightarrow> IndexStore \<Rightarrow> Blob list \<Rightarrow> Blob list" where
  "blobsToUpload sha256 store blobs =
     List.map_filter (map_of (fst (hashAll sha256 blobs))) (newHashes sha256 store blobs)"

text \<open>
  \<open>indexProject\<close> (1014-1168). \<open>collected\<close> is what \<open>collectFiles\<close> gave in this run: the
  blobs, or the message of the error it threw. \<open>doc\<close> is the index file before the run.
  The result is \<open>None\<close> when the run does not return: with \<open>batchSize = 0\<close> and blobs to
  upload the number of batches is \<open>Infinity\<close>.
\<close>

definition indexProject ::
  "(byte list \<Rightarrow> 256 word) \<Rightarrow> nat \<Rightarrow> string + Blob list \<Rightarrow> IndexDocument \<Rightarrow> Remote
     \<Rightarrow> string option \<Rightarrow> Run option" where
  "indexProject sha256 batchSize collected doc post writeError =
     (case collected of
        Inl errorMessage \<Rightarrow>
          Some \<lparr>outcome = Inr (plainResult Error errorMessage), document = doc,
                 saved = None, posted = []\<rparr>
      | Inr blobs \<Rightarrow>
          if blobs = [] then
            Some \<lparr>outcome = Inr (plainResult Error ''No text files found in project''),
                   document = doc, saved = None, posted = []\<rparr>
          else
            (let store = loadIndexStore doc;
                 nextFileMap = snd (hashAll sha256 blobs);
                 existing = existingHashes sha256 store blobs;
                 new = newHashes sha256 store blobs;
                 toUpload = blobsToUpload sha256 store blobs
             in if toUpload \<noteq> [] \<and> batchSize = 0 then None
                else
                  (case (if toUpload \<noteq> [] then uploadAll post batchSize toUpload new
                         else ([], [], []))
                   of (uploadedBlobNames, failedBatches, sent) \<Rightarrow>
                     if toUpload \<noteq> [] \<and> uploadedBlobNames = [] \<and> existing = [] then
                       Some \<lparr>outcome = Inr (plainResult Error ''All batches failed on first indexing''),
                              document = doc, saved = None, posted = sent\<rparr>
                     else
                       (let availableBlobNames = newSet (existing @ uploadedBlobNames);
                            filteredFileMap = filterFileMap availableBlobNames nextFileMap;
                            nextStore = \<lparr>version = 1, blob_names = availableBlobNames,
                                         file_map = filteredFileMap\<rparr>
                        in case saveIndexStore writeError nextStore of
                             Inl errorMessage \<Rightarrow>
                               Some \<lparr>outcome = Inr (plainResult Error errorMessage),
                                      document = doc, saved = None, posted = sent\<rparr>
                           | Inr doc' \<Rightarrow>
                               Some \<lparr>outcome = Inr
                                        \<lparr>status = (if failedBatches = [] then Success
                                                    else PartialSuccess),
                                         message = ''Indexed ''
                                           @ decimal (length availableBlobNames)
                                           @ '' blobs (existing: ''
                                           @ decimal (length existing)
                                           @ '', new: ''
                                           @ decimal (length uploadedBlobNames) @ '')'',
                                         stats = Some (length availableBlobNames, length existing,
                                                       length uploadedBlobNames)\<rparr>,
                                      document = doc', saved = Some nextStore,
                                      posted = sent\<rparr>))))"

text \<open>
  \<open>removeFileFromIndex\<close> (632-658); \<open>reason\<close> is always given by its callers. A write
  that throws is not caught here. When the path is the name of a member of
  \<open>Object.prototype\<close> and the file map does not hold it, the guard passes, \<open>delete\<close>
  removes nothing, and the store is written again with its \<open>blob_names\<close> collected anew.
\<close>

definition removeFileFromIndex :: "IndexDocument \<Rightarrow> string option \<Rightarrow> string \<Rightarrow> string \<Rightarrow> Run" where
  "removeFileFromIndex doc writeError relativePath reason =
     (let store = loadIndexStore doc
      in if \<not> truthyAt (file_map store) relativePath then
           \<lparr>outcome = Inr (plainResult Skipped reason), document = doc, saved = None, posted = []\<rparr>
         else
           (let nextFileMap = filter (\<lambda>entry. fst entry \<noteq> relativePath) (file_map store);
                nextStore = \<lparr>version = 1, blob_names = collectBlobNames nextFileMap,
                             file_map = nextFileMap\<rparr>
            in case saveIndexStore writeError nextStore of
                 Inl msg \<Rightarrow> \<lparr>outcome = Inl msg, document = doc, saved = None, posted = []\<rparr>
               | Inr doc' \<Rightarrow>
                   \<lparr>outcome = Inr (plainResult Success reason), document = doc',
                    saved = Some nextStore, posted = []\<rparr>))"

text \<open>
  What \<open>indexFile\<close> finds out about the file before it reads the store: the path
  relative to the project root (\<open>toRelativePath\<close>), whether the ignore filter excludes
  it, whether its extension is indexed, whether it is a regular file on disk, and what
  reading it gives (the error thrown, or the decoded text).
\<close>

record FileProbe =
  relativePath :: "string option"
  excluded :: bool
  extensionIndexed :: bool
  isFile :: bool
  readFile :: "string + string"

text \<open>The hashing loop of \<open>indexFile\<close> (915-921), one blob at a time, and the loop.\<close>

definition hashFileBlob ::
  "(byte list \<Rightarrow> 256 word) \<Rightarrow> (string \<times> Blob) list \<times> string list \<Rightarrow> Blob
     \<Rightarrow> (string \<times> Blob) list \<times> string list" where
  "hashFileBlob sha256 acc blob =
     (case acc of (blobHashMap, nextHashes) \<Rightarrow>
        (let blobHash = calculateBlobName sha256 (path blob) (content blob)
         in (assign blobHash blob blobHashMap, nextHashes @ [blobHash])))"

definition hashFile ::
  "(byte list \<Rightarrow> 256 word) \<Rightarrow> Blob list \<Rightarrow> (string \<times> Blob) list \<times> string list" where
  "hashFile sha256 fileBlobs = foldl (hashFileBlob sha256) ([], []) fileBlobs"

text \<open>
  \<open>indexFile\<close> (886-1009). The result is \<open>None\<close> when the run does not return
  (\<open>maxLinesPerBlob = 0\<close> or \<open>batchSize = 0\<close> with work to do).
\<close>

definition indexFile ::
  "(byte list \<Rightarrow> 256 word) \<Rightarrow> nat \<Rightarrow> nat \<Rightarrow> FileProbe \<Rightarrow> IndexDocument \<Rightarrow> Remote
     \<Rightarrow> string option \<Rightarrow> Run option" where
  "indexFile sha256 batchSize maxLinesPerBlob probe doc post writeError =
     (case relativePath probe of
        None \<Rightarrow>
          Some \<lparr>outcome = Inr (plainResult Skipped ''File is outside project root''),
                 document = doc, saved = None, posted = []\<rparr>
      | Some rel \<Rightarrow>
          if rel = [] then
            Some \<lparr>outcome = Inr (plainResult Skipped ''File is outside project root''),
                   document = doc, saved = None, posted = []\<rparr>
          else if excluded probe then
            Some (removeFileFromIndex doc writeError rel ''File excluded from index'')
          else if \<not> extensionIndexed probe then
            Some (removeFileFromIndex doc writeError rel ''File extension not indexed'')
          else if \<not> isFile probe then
            Some (removeFileFromIndex doc writeError rel ''File not found'')
          else
            (case readFile probe of
               Inl msg \<Rightarrow> Some \<lparr>outcome = Inl msg, document = doc, saved = None, posted = []\<rparr>
             | Inr content' \<Rightarrow>
                 (case splitFileContent maxLinesPerBlob rel content' of
                    None \<Rightarrow> None
                  | Some fileBlobs \<Rightarrow>
                      (let blobHashMap = fst (hashFile sha256 fileBlobs);
                           nextHashes = snd (hashFile sha256 fileBlobs);
                           store = loadIndexStore doc;
                           previousHashes = (case map_of (file_map store) rel of
                                               Some hashes \<Rightarrow> hashes | None \<Rightarrow> []);
                           isSame = (previousHashes = nextHashes)
                       in if isSame then
                            Some \<lparr>outcome = Inr (plainResult Success ''No changes detected''),
                                   document = doc, saved = None, posted = []\<rparr>
                          else
                            (let existingBlobNames = newSet (blob_names store);
                                 hashesToUpload =
                                   filter (\<lambda>hash. hash \<notin> set existingBlobNames) nextHashes;
                                 toUpload = List.map_filter (map_of blobHashMap) hashesToUpload
                             in if toUpload \<noteq> [] \<and> batchSize = 0 then None
                                else
                                  (case (if toUpload \<noteq> []
                                         then uploadAll post batchSize toUpload hashesToUpload
                                         else ([], [], []))
                                   of (uploadedBlobNames, failedBatches, sent) \<Rightarrow>
                                     if failedBatches \<noteq> [] then
                                       Some \<lparr>outcome = Inr (plainResult Error ''File indexing failed''),
                                              document = doc, saved = None, posted = sent\<rparr>
                                     else
                                       (let nextFileMap = assign rel nextHashes (file_map store);
                                            nextStore = \<lparr>version = 1,
                                                         blob_names = collectBlobNames nextFileMap,
                                                         file_map = nextFileMap\<rparr>
                                        in case saveIndexStore writeError nextStore of
                                             Inl msg \<Rightarrow>
                                               Some \<lparr>outcome = Inl msg, document = doc,
                                                      saved = None, posted = sent\<rparr>
                                           | Inr doc' \<Rightarrow>
                                               Some \<lparr>outcome = Inr (plainResult Success
                                                                 (''Indexed file '' @ rel)),
                                                      document = doc', saved = Some nextStore,
                                                      posted = sent\<rparr>)))))))"

text \<open>
  Names for stating what the reconciler does: the digest of a blob; the digests of the
  blobs of one file, in the order collected; and what the upload loop of \<open>indexProject\<close>
  returns in a run (nothing when there is nothing to upload).
\<close>

definition blobDigest :: "(byte list \<Rightarrow> 256 word) \<Rightarrow> Blob \<Rightarrow> string" where
  "blobDigest sha256 blob = calculateBlobName sha256 (path blob) (content blob)"

definition fileDigests :: "(byte list \<Rightarrow> 256 word) \<Rightarrow> Blob list \<Rightarrow> string \<Rightarrow> string list" where
  "fileDigests sha256 blobs f = map (blobDigest sha256) (filter (\<lambda>blob. sourcePath blob = f) blobs)"

definition uploadsOf ::
  "(byte list \<Rightarrow> 256 word) \<Rightarrow> nat \<Rightarrow> Blob list \<Rightarrow> IndexDocument \<Rightarrow> Remote
     \<Rightarrow> string list \<times> nat list \<times> Blob list list" where
  "uploadsOf sha256 batchSize blobs doc post =
     (if blobsToUpload sha256 (loadIndexStore doc) blobs \<noteq> []
      then uploadAll post batchSize (blobsToUpload sha256 (loadIndexStore doc) blobs)
             (newHashes sha256 (loadIndexStore doc) blobs)
      else ([], [], []))"

section \<open>The retry policy\<close>

text \<open>
  \<open>retryRequest\<close> (extension.ts, 821-884). What the loop reads of a caught error: the
  \<open>code\<close> and the status of the \<open>response\<close>, each when present, and the message of
  \<open>lastError\<close>.
\<close>

record RequestError =
  code :: "string option"
  responseStatus :: "nat option"
  errorText :: string

text \<open>
  The message of the error \<open>retryRequest\<close> throws. The translated messages are
  constants of the source, one constructor each: the token is invalid or expired (401),
  access is denied and the token may be banned (403), the certificate cannot be verified,
  the server cannot be reached (\<open>ECONNREFUSED\<close>), the connection timed out
  (\<open>ETIMEDOUT\<close>), the address does not resolve (\<open>ENOTFOUND\<close>). \<open>Original msg\<close> is the
  message of the caught error, unchanged; \<open>AllRetriesFailed\<close> is the message thrown when
  the loop ends with no error caught.
\<close>

datatype Thrown =
    TokenInvalid
  | AccessDenied
  | CertificateFailed
  | ConnectionRefused
  | ConnectionTimedOut
  | AddressNotFound
  | Original string
  | AllRetriesFailed

text \<open>
  \<open>s.includes(sub)\<close>, by way of "\<open>s\<close> starts with \<open>sub\<close>".
\<close>

fun startsWith :: "string \<Rightarrow> string \<Rightarrow> bool" where
  "startsWith s [] = True"
| "startsWith [] (c # cs) = False"
| "startsWith (x # xs) (c # cs) = (x = c \<and> startsWith xs cs)"

fun includesStr :: "string \<Rightarrow> string \<Rightarrow> bool" where
  "includesStr [] sub = (sub = [])"
| "includesStr (x # xs) sub = (startsWith (x # xs) sub \<or> includesStr xs sub)"

definition isCertificateError :: "RequestError \<Rightarrow> bool" where
  "isCertificateError e =
     (code e = Some ''UNABLE_TO_VERIFY_LEAF_SIGNATURE''
      \<or> code e = Some ''CERT_HAS_EXPIRED''
      \<or> code e = Some ''ERR_TLS_CERT_ALTNAME_INVALID''
      \<or> includesStr (errorText e) ''certificate''
      \<or> includesStr (errorText e) ''altnames'')"

definition isRetryable :: "RequestError \<Rightarrow> bool" where
  "isRetryable e =
     (code e = Some ''ECONNREFUSED''
      \<or> code e = Some ''ETIMEDOUT''
      \<or> code e = Some ''ENOTFOUND''
      \<or> (case responseStatus e of Some st \<Rightarrow> 500 \<le> st | None \<Rightarrow> False))"

definition friendlyMessage :: "RequestError \<Rightarrow> Thrown" where
  "friendlyMessage e =
     (if code e = Some ''ECONNREFUSED'' then ConnectionRefused
      else if code e = Some ''ETIMEDOUT'' then ConnectionTimedOut
      else if code e = Some ''ENOTFOUND'' then AddressNotFound
      else Original (errorText e))"

text \<open>
  The loop from \<open>attempt\<close> on. \<open>fn attempt\<close> is what the call of \<open>fn\<close> in that turn
  gives: the error it throws or the value it returns. The result is what \<open>retryRequest\<close>
  throws or returns, the waits it slept in order (milliseconds), and how many times it
  called \<open>fn\<close>.
\<close>

function retryLoop ::
  "(nat \<Rightarrow> RequestError + 'a) \<Rightarrow> nat \<Rightarrow> nat \<Rightarrow> nat \<Rightarrow> RequestError option \<Rightarrow> nat list
     \<Rightarrow> (Thrown + 'a) \<times> nat list \<times> nat" where
  "retryLoop fn maxRetries retryDelay attempt lastError slept =
     (if attempt < maxRetries then
        (case fn attempt of
           Inr result \<Rightarrow> (Inr result, slept, attempt + 1)
         | Inl e \<Rightarrow>
             if responseStatus e = Some 401 then (Inl TokenInvalid, slept, attempt + 1)
             else if responseStatus e = Some 403 then (Inl AccessDenied, slept, attempt + 1)
             else if isCertificateError e then (Inl CertificateFailed, slept, attempt + 1)
             else if \<not> isRetryable e \<or> attempt = maxRetries - 1 then
               (Inl (friendlyMessage e), slept, attempt + 1)
             else
               retryLoop fn maxRetries retryDelay (attempt + 1) (Some e)
                 (slept @ [retryDelay * 2 ^ attempt]))
      else
        (case lastError of
           Some e \<Rightarrow> (Inl (Original (errorText e)), slept, attempt)
         | None \<Rightarrow> (Inl AllRetriesFailed, slept, attempt)))"
  by pat_completeness auto
termination
  by (relation "measure (\<lambda>(fn, maxRetries, retryDelay, attempt, lastError, slept). maxRetries - attempt)")
     auto

declare retryLoop.simps [simp del]

definition retryRequest ::
  "(nat \<Rightarrow> RequestError + 'a) \<Rightarrow> nat \<Rightarrow> nat \<Rightarrow> (Thrown + 'a) \<times> nat list \<times> nat" where
  "retryRequest fn maxRetries retryDelay = retryLoop fn maxRetries retryDelay 0 None []"

section \<open>The ignore filter\<close>

text \<open>
  \<open>matchPattern\<close> (768-772) and \<open>shouldExclude\<close> (726-758). \<open>replaceAll c r s\<close> is
  \<open>s.replace(/c/g, r)\<close> for a single character \<open>c\<close>.
\<close>

definition replaceAll :: "char \<Rightarrow> string \<Rightarrow> string \<Rightarrow> string" where
  "replaceAll c replacement s = concat (map (\<lambda>x. if x = c then replacement else [x]) s)"

text \<open>
  The builtin \<open>RegExp\<close>, on the sources a pattern gives when it has no metacharacter
  besides the ones the replacements put in: a sequence of literal characters, \<open>.\<close> (any
  character but a line terminator) and \<open>.*\<close>. \<open>parseRegex\<close> is \<open>None\<close> on a source with
  another metacharacter, which this model does not read. \<open>regexTest items s\<close> is
  \<open>new RegExp('^' + source + '$').test(s)\<close>.
\<close>

datatype RegexItem = Literal char | AnyChar | AnyRun

definition regexSpecial :: "char \<Rightarrow> bool" where
  "regexSpecial c = (c = CHR 0x5C \<or> c \<in> set ''^$.*+?()[]{}|'')"

fun parseRegex :: "string \<Rightarrow> RegexItem list option" where
  "parseRegex [] = Some []"
| "parseRegex (c # cs) =
     (if c = CHR ''.'' then
        (case cs of
           [] \<Rightarrow> Some [AnyChar]
         | d # ds \<Rightarrow>
             if d = CHR ''*'' then map_option ((#) AnyRun) (parseRegex ds)
             else map_option ((#) AnyChar) (parseRegex cs))
      else if regexSpecial c then None
      else map_option ((#) (Literal c)) (parseRegex cs))"

definition lineTerminator :: "char \<Rightarrow> bool" where
  "lineTerminator c = (c = LF \<or> c = CR)"

fun regexTest :: "RegexItem list \<Rightarrow> string \<Rightarrow> bool" where
  "regexTest [] s = (s = [])"
| "regexTest (Literal c # items) s =
     (case s of [] \<Rightarrow> False | x # xs \<Rightarrow> x = c \<and> regexTest items xs)"
| "regexTest (AnyChar # items) s =
     (case s of [] \<Rightarrow> False | x # xs \<Rightarrow> \<not> lineTerminator x \<and> regexTest items xs)"
| "regexTest (AnyRun # items) s =
     (regexTest items s
      \<or> (case s of [] \<Rightarrow> False | x # xs \<Rightarrow> \<not> lineTerminator x \<and> regexTest (AnyRun # items) xs))"

text \<open>
  \<open>toRegexSource pattern\<close> is \<open>regexPattern\<close>, the pattern after the two replacements;
  \<open>matchPattern\<close> tests the string against it.
\<close>

definition toRegexSource :: "string \<Rightarrow> string" where
  "toRegexSource pattern = replaceAll (CHR ''?'') ''.'' (replaceAll (CHR ''*'') ''.*'' pattern)"

definition matchPattern :: "string \<Rightarrow> string \<Rightarrow> bool option" where
  "matchPattern str pattern =
     (let regexPattern = toRegexSource pattern
      in map_option (\<lambda>regex. regexTest regex str) (parseRegex regexPattern))"

text \<open>
  \<open>pathStr.split('/')\<close>, and the two loops of \<open>shouldExclude\<close>: for each pattern, the
  parts of the path and then the whole path. The result is \<open>None\<close> where
  \<open>matchPattern\<close> is.
\<close>

fun splitOn :: "char \<Rightarrow> string \<Rightarrow> string \<Rightarrow> string list" where
  "splitOn sep cur [] = [cur]"
| "splitOn sep cur (c # cs) = (if c = sep then cur # splitOn sep [] cs else splitOn sep (cur @ [c]) cs)"

fun anyMatch :: "string list \<Rightarrow> string \<Rightarrow> bool option" where
  "anyMatch [] pattern = Some False"
| "anyMatch (part # parts) pattern =
     (case matchPattern part pattern of
        None \<Rightarrow> None
      | Some True \<Rightarrow> Some True
      | Some False \<Rightarrow> anyMatch parts pattern)"

fun excludedBy :: "string list \<Rightarrow> string \<Rightarrow> string list \<Rightarrow> bool option" where
  "excludedBy excludePatterns pathStr pathParts =
     (case excludePatterns of
        [] \<Rightarrow> Some False
      | pattern # patterns \<Rightarrow>
          (case anyMatch (pathParts @ [pathStr]) pattern of
             None \<Rightarrow> None
           | Some True \<Rightarrow> Some True
           | Some False \<Rightarrow> excludedBy patterns pathStr pathParts))"

text \<open>
  \<open>pathStr\<close> is the path relative to the project root, with forward slashes.
  \<open>gitignoreSpec\<close> is the test of the loaded ignore file, when there is one;
  \<open>isDirectory\<close> is what \<open>statSync\<close> says of the path, \<open>None\<close> when it throws (the
  \<open>catch\<close> then answers \<open>false\<close>).
\<close>

definition shouldExclude ::
  "string list \<Rightarrow> string \<Rightarrow> (string \<Rightarrow> bool) option \<Rightarrow> bool option \<Rightarrow> bool option" where
  "shouldExclude excludePatterns pathStr gitignoreSpec isDirectory =
     (case gitignoreSpec of
        None \<Rightarrow> excludedBy excludePatterns pathStr (splitOn (CHR ''/'') [] pathStr)
      | Some ignores \<Rightarrow>
          (case isDirectory of
             None \<Rightarrow> Some False
           | Some isDir \<Rightarrow>
               if ignores (if isDir then pathStr @ ''/'' else pathStr) then Some True
               else excludedBy excludePatterns pathStr (splitOn (CHR ''/'') [] pathStr)))"

text \<open>
  The glob semantics of the specification, for comparison: \<open>*\<close> matches any run of
  characters, \<open>?\<close> exactly one character, any other character itself, and the whole
  string is matched.
\<close>

fun globMatch :: "string \<Rightarrow> string \<Rightarrow> bool" where
  "globMatch [] s = (s = [])"
| "globMatch (p # ps) s =
     (if p = CHR ''*'' then
        (globMatch ps s \<or> (case s of [] \<Rightarrow> False | x # xs \<Rightarrow> globMatch (p # ps) xs))
      else if p = CHR ''?'' then (case s of [] \<Rightarrow> False | x # xs \<Rightarrow> globMatch ps xs)
      else (case s of [] \<Rightarrow> False | x # xs \<Rightarrow> x = p \<and> globMatch ps xs))"

text \<open>
  Names for stating what the retry loop does. \<open>transient e\<close>: the loop retries \<open>e\<close>. The
  test reads the status of the response, the error code and the message, nothing else:
  the status is neither 401 nor 403, the error is not a certificate failure (by its
  code or by a message that contains \<open>certificate\<close> or \<open>altnames\<close>), and either the code is
  one of \<open>ECONNREFUSED\<close>, \<open>ETIMEDOUT\<close>, \<open>ENOTFOUND\<close> or the status is 500 or more.
  \<open>delays retryDelay k\<close>: the waits slept before attempt \<open>k\<close> is made.
\<close>

definition transient :: "RequestError \<Rightarrow> bool" where
  "transient e =
     (responseStatus e \<noteq> Some 401 \<and> responseStatus e \<noteq> Some 403
      \<and> code e \<notin> {Some ''UNABLE_TO_VERIFY_LEAF_SIGNATURE'', Some ''CERT_HAS_EXPIRED'',
                   Some ''ERR_TLS_CERT_ALTNAME_INVALID''}
      \<and> \<not> includesStr (errorText e) ''certificate''
      \<and> \<not> includesStr (errorText e) ''altnames''
      \<and> (code e \<in> {Some ''ECONNREFUSED'', Some ''ETIMEDOUT'', Some ''ENOTFOUND''}
          \<or> (case responseStatus e of Some st \<Rightarrow> 500 \<le> st | None \<Rightarrow> False)))"

definition delays :: "nat \<Rightarrow> nat \<Rightarrow> nat list" where
  "delays retryDelay k = map (\<lambda>j. retryDelay * 2 ^ j) [0..<k]"

section \<open>Example data\<close>

text \<open>
  Data for the worked examples. \<open>byteCount\<close> stands in for SHA-256 there: it tells the
  byte strings of the examples apart, which is all the runs below depend on.
  \<open>echoRemote\<close> is a remote store that answers every batch with the digests of its
  blobs; \<open>reversedEcho\<close> answers with the same digests in reverse order;
  \<open>firstBatchOnly\<close> accepts the first batch and fails every later request;
  \<open>unreachable\<close> fails every request.
\<close>

definition byteCount :: "byte list \<Rightarrow> 256 word" where
  "byteCount bytes = of_nat (length bytes)"

definition echoRemote :: "(byte list \<Rightarrow> 256 word) \<Rightarrow> Remote" where
  "echoRemote sha256 batchIdx batchBlobs = Replied (map (blobDigest sha256) batchBlobs)"

definition firstBatchOnly :: "(byte list \<Rightarrow> 256 word) \<Rightarrow> Remote" where
  "firstBatchOnly sha256 batchIdx batchBlobs =
     (if batchIdx = 0 then Replied (map (blobDigest sha256) batchBlobs) else Threw)"

definition reversedEcho :: "(byte list \<Rightarrow> 256 word) \<Rightarrow> Remote" where
  "reversedEcho sha256 batchIdx batchBlobs = Replied (rev (map (blobDigest sha256) batchBlobs))"

definition unreachable :: Remote where
  "unreachable batchIdx batchBlobs = Threw"

definition chunk1 :: Blob where
  "chunk1 = \<lparr>path = ''b.py#chunk1of2'', content = [CHR ''y'', CHR ''y'', LF], sourcePath = ''b.py''\<rparr>"

definition chunk2 :: Blob where
  "chunk2 = \<lparr>path = ''b.py#chunk2of2'', content = ''z'', sourcePath = ''b.py''\<rparr>"

definition fileA :: Blob where
  "fileA = \<lparr>path = ''a.py'', content = ''x'', sourcePath = ''a.py''\<rparr>"

text \<open>
  Errors for the worked runs of the retry loop, as the HTTP client (created at 556-561
  with a timeout of 30000 ms) reports them. \<open>connectTimedOut\<close> is a connection attempt
  that the operating system gave up; \<open>requestTimedOut\<close> is the client's own timeout, which
  it reports with the code \<open>ECONNABORTED\<close>; \<open>lookupFailedTemporarily\<close> is a name lookup
  that failed with \<open>EAI_AGAIN\<close>.
\<close>

definition connectTimedOut :: RequestError where
  "connectTimedOut = \<lparr>code = Some ''ETIMEDOUT'', responseStatus = None,
                       errorText = ''connect ETIMEDOUT 203.0.113.7:443''\<rparr>"

definition requestTimedOut :: RequestError where
  "requestTimedOut = \<lparr>code = Some ''ECONNABORTED'', responseStatus = None,
                       errorText = ''timeout of 30000ms exceeded''\<rparr>"

definition lookupFailedTemporarily :: RequestError where
  "lookupFailedTemporarily = \<lparr>code = Some ''EAI_AGAIN'', responseStatus = None,
                               errorText = ''getaddrinfo EAI_AGAIN api.example.com''\<rparr>"

definition serverError :: RequestError where
  "serverError = \<lparr>code = Some ''ERR_BAD_RESPONSE'', responseStatus = Some 500,
                   errorText = ''Request failed with status code 500''\<rparr>"

definition unauthorized :: RequestError where
  "unauthorized = \<lparr>code = Some ''ERR_BAD_REQUEST'', responseStatus = Some 401,
                    errorText = ''Request failed with status code 401''\<rparr>"

section \<open>Facts about the digest\<close>

lemma base16_digits_eq:
  fixes n m :: nat
  shows "n < 16 ^ k \<Longrightarrow> m < 16 ^ k
    \<Longrightarrow> (\<And>i. i < k \<Longrightarrow> (n div 16 ^ i) mod 16 = (m div 16 ^ i) mod 16) \<Longrightarrow> n = m"
proof (induction k arbitrary: n m)
  case 0
  then show ?case by simp
next
  case (Suc k)
  have low: "n mod 16 = m mod 16"
    using Suc.prems(3) [of 0] by simp
  have "n div 16 = m div 16"
  proof (rule Suc.IH)
    show "n div 16 < 16 ^ k" using Suc.prems(1) by (simp add: less_mult_imp_div_less mult.commute)
    show "m div 16 < 16 ^ k" using Suc.prems(2) by (simp add: less_mult_imp_div_less mult.commute)
    fix i assume "i < k"
    then have "(n div 16 ^ Suc i) mod 16 = (m div 16 ^ Suc i) mod 16"
      using Suc.prems(3) [of "Suc i"] by simp
    then show "(n div 16 div 16 ^ i) mod 16 = (m div 16 div 16 ^ i) mod 16"
      by (simp add: div_mult2_eq)
  qed
  with low show ?case
    by (metis div_mult_mod_eq)
qed

lemma hexDigit_inj: "hexDigit a = hexDigit b \<Longrightarrow> a mod 16 = b mod 16"
proof -
  assume h: "hexDigit a = hexDigit b"
  have d: "distinct ''0123456789abcdef''" by simp
  have la: "a mod 16 < length ''0123456789abcdef''" by simp
  have lb: "b mod 16 < length ''0123456789abcdef''" by simp
  from h show ?thesis
    unfolding hexDigit_def using nth_eq_iff_index_eq [OF d la lb] by simp
qed

lemma hexDigit_range: "hexDigit n \<in> set ''0123456789abcdef''"
  unfolding hexDigit_def by (rule nth_mem) simp

lemma length_toHex: "length (toHex w) = 64"
  by (simp add: toHex_def)

lemma set_toHex: "set (toHex w) \<subseteq> set ''0123456789abcdef''"
  unfolding toHex_def using hexDigit_range by auto

lemma toHex_inj: "toHex v = toHex w \<Longrightarrow> v = w"
proof -
  assume h: "toHex v = toHex w"
  have digit: "(unat v div 16 ^ j) mod 16 = (unat w div 16 ^ j) mod 16" if "j < 64" for j
  proof -
    have i: "63 - j < 64" by simp
    have "toHex v ! (63 - j) = toHex w ! (63 - j)" using h by simp
    then have "hexDigit ((unat v div 16 ^ (63 - (63 - j))) mod 16)
        = hexDigit ((unat w div 16 ^ (63 - (63 - j))) mod 16)"
      unfolding toHex_def using i by (simp del: upt_Suc)
    then have "hexDigit ((unat v div 16 ^ j) mod 16) = hexDigit ((unat w div 16 ^ j) mod 16)"
      using that by simp
    from hexDigit_inj [OF this] show ?thesis by simp
  qed
  have pw: "(16::nat) ^ 64 = 2 ^ 256" by simp
  have bv: "unat v < 16 ^ 64" unfolding pw using unsigned_less [of v] by simp
  have bw: "unat w < 16 ^ 64" unfolding pw using unsigned_less [of w] by simp
  have "unat v = unat w"
    by (rule base16_digits_eq [OF bv bw]) (rule digit)
  then show ?thesis by (simp add: word_unat_eq_iff)
qed

section \<open>Facts about the splitter\<close>

lemma substring_take_drop: "a \<le> b \<Longrightarrow> b \<le> length s \<Longrightarrow> substring s a b = take (b - a) (drop a s)"
  by (simp add: substring_def Let_def min_def max_def)

lemma take_drop_snoc:
  "start \<le> i \<Longrightarrow> i < length t
     \<Longrightarrow> take (Suc i - start) (drop start t) = take (i - start) (drop start t) @ [t ! i]"
proof -
  assume a: "start \<le> i" "i < length t"
  have "i - start < length (drop start t)" using a by simp
  from take_Suc_conv_app_nth [OF this]
  show ?thesis using a by (simp add: Suc_diff_le)
qed

lemma scanLines_linesFrom:
  "start \<le> i \<Longrightarrow> i \<le> length t \<Longrightarrow>
   (case scanLines t i start lines of
      (start', lines') \<Rightarrow> if start' < length t then lines' @ [drop start' t] else lines')
   = lines @ linesFrom (take (i - start) (drop start t)) (drop i t)"
proof (induction t i start lines rule: scanLines.induct)
  case (1 t i start lines)
  show ?case
  proof (cases "i < length t")
    case False
    with "1.prems" have "i = length t" by simp
    then show ?thesis
      by (subst scanLines.simps) (use "1.prems" in auto)
  next
    case True
    note lt = True
    have dr: "drop i t = t ! i # drop (Suc i) t"
      using lt by (simp add: Cons_nth_drop_Suc)
    have sn: "take (Suc i - start) (drop start t) = take (i - start) (drop start t) @ [t ! i]"
      by (rule take_drop_snoc [OF "1.prems"(1) lt])
    consider (lf) "t ! i = LF"
      | (crlf) "t ! i \<noteq> LF" "t ! i = CR" "i + 1 < length t \<and> t ! (i + 1) = LF"
      | (cr) "t ! i \<noteq> LF" "t ! i = CR" "\<not> (i + 1 < length t \<and> t ! (i + 1) = LF)"
      | (other) "t ! i \<noteq> LF" "t ! i \<noteq> CR"
      by blast
    then show ?thesis
    proof cases
      case lf
      have ih: "(case scanLines t (i + 1) (i + 1) (lines @ [substring t start (i + 1)]) of
          (start', lines') \<Rightarrow> if start' < length t then lines' @ [drop start' t] else lines')
        = (lines @ [substring t start (i + 1)]) @ linesFrom (take (i + 1 - (i + 1)) (drop (i + 1) t)) (drop (i + 1) t)"
        using "1.IH"(1) [OF lt lf] lt by simp
      have sub: "substring t start (i + 1) = take (i - start) (drop start t) @ [t ! i]"
        using substring_take_drop [of start "i + 1" t] "1.prems"(1) lt sn by simp
      show ?thesis
        apply (subst scanLines.simps)
        using lt lf ih sub dr by simp
    next
      case crlf
      have lt2: "Suc i < length t" using crlf by simp
      have ih: "(case scanLines t (i + 2) (i + 2) (lines @ [substring t start (i + 2)]) of
          (start', lines') \<Rightarrow> if start' < length t then lines' @ [drop start' t] else lines')
        = (lines @ [substring t start (i + 2)]) @ linesFrom (take (i + 2 - (i + 2)) (drop (i + 2) t)) (drop (i + 2) t)"
        using "1.IH"(2) [OF lt crlf(1) crlf(2) crlf(3)] lt2 by simp
      have dr2: "drop (Suc i) t = t ! Suc i # drop (Suc (Suc i)) t"
        using lt2 by (simp add: Cons_nth_drop_Suc)
      have sn2: "take (Suc (Suc i) - start) (drop start t) = take (Suc i - start) (drop start t) @ [t ! Suc i]"
        by (rule take_drop_snoc) (use "1.prems"(1) lt2 in simp_all)
      have sub: "substring t start (i + 2) = take (i - start) (drop start t) @ [t ! i, t ! Suc i]"
        using substring_take_drop [of start "i + 2" t] "1.prems"(1) lt2 sn sn2 by simp
      show ?thesis
        apply (subst scanLines.simps)
        using lt crlf ih sub dr dr2 by simp
    next
      case cr
      have ih: "(case scanLines t (i + 1) (i + 1) (lines @ [substring t start (i + 1)]) of
          (start', lines') \<Rightarrow> if start' < length t then lines' @ [drop start' t] else lines')
        = (lines @ [substring t start (i + 1)]) @ linesFrom (take (i + 1 - (i + 1)) (drop (i + 1) t)) (drop (i + 1) t)"
        using "1.IH"(3) [OF lt cr(1) cr(2) cr(3)] lt by simp
      have sub: "substring t start (i + 1) = take (i - start) (drop start t) @ [t ! i]"
        using substring_take_drop [of start "i + 1" t] "1.prems"(1) lt sn by simp
      have cond: "\<not> (Suc i < length t \<and> t ! Suc i = LF)" using cr(3) by simp
      have rhs: "linesFrom (take (i - start) (drop start t)) (drop i t)
          = (take (i - start) (drop start t) @ [t ! i]) # linesFrom [] (drop (Suc i) t)"
      proof (cases "Suc i < length t")
        case True
        then have d2: "drop (Suc i) t = t ! Suc i # drop (Suc (Suc i)) t"
          by (simp add: Cons_nth_drop_Suc)
        have "t ! Suc i \<noteq> LF" using cond True by simp
        then show ?thesis
          unfolding dr d2 using cr(1,2) by simp
      next
        case False
        then have "drop (Suc i) t = []" by simp
        then show ?thesis
          unfolding dr using cr(1,2) by simp
      qed
      have lhs: "scanLines t i start lines = scanLines t (i + 1) (i + 1) (lines @ [substring t start (i + 1)])"
        by (subst scanLines.simps) (use lt cr(1,2) cond in auto)
      show ?thesis
        using ih unfolding lhs rhs sub by simp
    next
      case other
      have ih: "(case scanLines t (i + 1) start lines of
          (start', lines') \<Rightarrow> if start' < length t then lines' @ [drop start' t] else lines')
        = lines @ linesFrom (take (i + 1 - start) (drop start t)) (drop (i + 1) t)"
        using "1.IH"(4) [OF lt other(1) other(2)] "1.prems"(1) lt by simp
      show ?thesis
        apply (subst scanLines.simps)
        using lt other ih sn dr by simp
    qed
  qed
qed

lemma splitLines_linesFrom: "splitLines t = linesFrom [] t"
  using scanLines_linesFrom [of 0 0 t "[]"] by (simp add: splitLines_def)

lemma concat_linesFrom: "concat (linesFrom cur cs) = cur @ cs"
  by (induction cur cs rule: linesFrom.induct) (auto split: list.splits)

lemma lineEnd_append:
  "\<forall>c\<in>set cur. c \<noteq> LF \<and> c \<noteq> CR \<Longrightarrow> lineEnd (cur @ r) = lineEnd r"
  unfolding lineEnd_def by (rule dropWhile_append2) simp

lemma lineEnd_plain: "\<forall>c\<in>set cur. c \<noteq> LF \<and> c \<noteq> CR \<Longrightarrow> lineEnd cur = []"
  unfolding lineEnd_def by simp

lemma lineEnd_terminators:
  "lineEnd [LF] = [LF]" "lineEnd [CR] = [CR]" "lineEnd [CR, LF] = [CR, LF]"
  by (simp_all add: lineEnd_def)

lemma LF_neq_CR: "LF \<noteq> CR"
  by (simp add: LF_def CR_def)

lemma crlfKept_Cons:
  "crlfKept (a # L) = ((L \<noteq> [] \<longrightarrow> \<not> (lineEnd a = [CR] \<and> hd (hd L) = LF)) \<and> crlfKept L)"
  by (cases L) auto

lemma concat_chunks:
  "concat (map (\<lambda>i. take m (drop (i * m) xs)) [0..<n]) = take (n * m) xs"
proof (induction n)
  case 0
  then show ?case by simp
next
  case (Suc n)
  have "take (n * m + m) xs = take (n * m) xs @ take m (drop (n * m) xs)"
    by (rule take_add)
  with Suc show ?case by (simp add: add.commute)
qed

lemma ceilDiv_bounds:
  assumes "1 \<le> m" "0 < t"
  shows "(ceilDiv t m - 1) * m < t \<and> t \<le> ceilDiv t m * m"
proof -
  define q where "q = (t + m - 1) div m"
  have m0: "0 < m" using assms by simp
  have up: "t + m - 1 < q * m + m"
    unfolding q_def using dividend_less_div_times [OF m0, of "t + m - 1"] by (simp add: add.commute)
  have lo: "q * m \<le> t + m - 1"
    unfolding q_def by (rule div_times_less_eq_dividend)
  have q1: "1 \<le> q"
    unfolding q_def using assms m0 by (simp add: Suc_le_eq div_greater_zero_iff)
  have "(q - 1) * m = q * m - m" by (simp add: diff_mult_distrib)
  with lo q1 assms have a: "(q - 1) * m < t" by (cases q) auto
  have b: "t \<le> q * m" using up assms by simp
  show ?thesis using a b by (simp add: ceilDiv_def q_def)
qed

lemma plain_simps [simp]: "plain []" "plain (cur @ [c]) = (plain cur \<and> c \<noteq> LF \<and> c \<noteq> CR)"
  by (auto simp: plain_def)

lemma lineEnd_plain_append: "plain cur \<Longrightarrow> lineEnd (cur @ r) = lineEnd r"
  using lineEnd_append by (simp add: plain_def)

lemma lineEnd_plain_Nil: "plain cur \<Longrightarrow> lineEnd cur = []"
  using lineEnd_plain by (simp add: plain_def)

lemma linesFrom_LF: "linesFrom cur (LF # cs) = (cur @ [LF]) # linesFrom [] cs"
  by simp

lemma linesFrom_CRLF: "linesFrom cur (CR # LF # cs) = (cur @ [CR, LF]) # linesFrom [] cs"
  by (simp add: LF_neq_CR [symmetric])

lemma linesFrom_CR:
  "cs = [] \<or> hd cs \<noteq> LF \<Longrightarrow> linesFrom cur (CR # cs) = (cur @ [CR]) # linesFrom [] cs"
  by (cases cs) (auto simp: LF_neq_CR [symmetric])

lemma linesFrom_other:
  "c \<noteq> LF \<Longrightarrow> c \<noteq> CR \<Longrightarrow> linesFrom cur (c # cs) = linesFrom (cur @ [c]) cs"
  by simp

lemma linesFrom_cases [case_names Nil lf crlf cr other]:
  assumes "\<And>cur. P cur []"
    and "\<And>cur cs. P [] cs \<Longrightarrow> P cur (LF # cs)"
    and "\<And>cur cs. P [] cs \<Longrightarrow> P cur (CR # LF # cs)"
    and "\<And>cur cs. cs = [] \<or> hd cs \<noteq> LF \<Longrightarrow> P [] cs \<Longrightarrow> P cur (CR # cs)"
    and "\<And>cur c cs. c \<noteq> LF \<Longrightarrow> c \<noteq> CR \<Longrightarrow> P (cur @ [c]) cs \<Longrightarrow> P cur (c # cs)"
  shows "P cur cs"
proof (induction cur cs rule: linesFrom.induct)
  case (1 cur)
  show ?case by (rule assms(1))
next
  case (2 cur c cs)
  show ?case
  proof (cases "c = LF")
    case True
    then show ?thesis using assms(2) 2(1) by simp
  next
    case False
    note nlf = False
    show ?thesis
    proof (cases "c = CR")
      case True
      note cr = True
      show ?thesis
      proof (cases cs)
        case Nil
        have "P [] []" by (rule assms(1))
        then have "P cur (CR # [])" by (rule assms(4) [rotated]) simp
        then show ?thesis using cr Nil by simp
      next
        case (Cons d ds)
        show ?thesis
        proof (cases "d = LF")
          case True
          have "P [] ds" using 2(2) [OF nlf cr Cons True] .
          then have "P cur (CR # LF # ds)" by (rule assms(3))
          then show ?thesis using cr Cons True by simp
        next
          case False
          have "P [] cs" using 2(3) [OF nlf cr Cons False] .
          then have "P cur (CR # cs)" by (rule assms(4) [rotated]) (use Cons False in simp)
          then show ?thesis using cr by simp
        qed
      qed
    next
      case False
      have "P (cur @ [c]) cs" using 2(4) [OF nlf False] .
      then show ?thesis using assms(5) nlf False by simp
    qed
  qed
qed

lemmas linesFrom_eqs = linesFrom_LF linesFrom_CRLF linesFrom_CR linesFrom_other

lemma linesFrom_shape:
  "plain cur \<Longrightarrow> l \<in> set (linesFrom cur cs)
     \<Longrightarrow> l \<noteq> [] \<and> lineEnd l \<in> {[], [LF], [CR], [CR, LF]}"
  by (induction cur cs rule: linesFrom_cases)
     (auto simp: linesFrom_eqs lineEnd_plain_append lineEnd_plain_Nil lineEnd_terminators
           simp del: linesFrom.simps(2) split: if_splits)

lemma linesFrom_terminated:
  "plain cur \<Longrightarrow> l \<in> set (butlast (linesFrom cur cs)) \<Longrightarrow> lineEnd l \<noteq> []"
  by (induction cur cs rule: linesFrom_cases)
     (auto simp: linesFrom_eqs lineEnd_plain_append lineEnd_terminators
           simp del: linesFrom.simps(2) split: if_splits)

lemma hd_linesFrom:
  "linesFrom cur cs \<noteq> [] \<Longrightarrow> hd (hd (linesFrom cur cs)) = hd (cur @ cs)"
  by (induction cur cs rule: linesFrom_cases)
     (auto simp: linesFrom_eqs hd_append simp del: linesFrom.simps(2))

lemma linesFrom_crlfKept: "plain cur \<Longrightarrow> crlfKept (linesFrom cur cs)"
proof (induction cur cs rule: linesFrom_cases)
  case (Nil cur)
  then show ?case by simp
next
  case (lf cur cs)
  then show ?case
    by (simp add: linesFrom_LF crlfKept_Cons lineEnd_plain_append lineEnd_terminators LF_neq_CR
        del: linesFrom.simps(2) crlfKept.simps)
next
  case (crlf cur cs)
  then show ?case
    by (simp add: linesFrom_CRLF crlfKept_Cons lineEnd_plain_append lineEnd_terminators
        del: linesFrom.simps(2) crlfKept.simps)
next
  case (cr cur cs)
  have "linesFrom [] cs \<noteq> [] \<Longrightarrow> hd (hd (linesFrom [] cs)) \<noteq> LF"
  proof -
    assume ne: "linesFrom [] cs \<noteq> []"
    then have "cs \<noteq> []" by auto
    with cr(1) have "hd cs \<noteq> LF" by simp
    with hd_linesFrom [OF ne] show ?thesis by simp
  qed
  with cr show ?case
    by (auto simp add: linesFrom_CR crlfKept_Cons simp del: linesFrom.simps(2) crlfKept.simps)
next
  case (other cur c cs)
  then show ?case by (simp add: linesFrom_other del: linesFrom.simps(2))
qed

lemma crlfKept_nth:
  "crlfKept xs \<Longrightarrow> Suc i < length xs \<Longrightarrow> \<not> (lineEnd (xs ! i) = [CR] \<and> hd (xs ! Suc i) = LF)"
proof (induction xs arbitrary: i rule: crlfKept.induct)
  case (1 a b r)
  then show ?case by (cases i) auto
qed simp_all

lemma splitLines_props:
  "concat (splitLines c) = c"
  "l \<in> set (splitLines c) \<Longrightarrow> l \<noteq> [] \<and> lineEnd l \<in> {[], [LF], [CR], [CR, LF]}"
  "l \<in> set (butlast (splitLines c)) \<Longrightarrow> lineEnd l \<noteq> []"
  "Suc i < length (splitLines c)
     \<Longrightarrow> \<not> (lineEnd (splitLines c ! i) = [CR] \<and> hd (splitLines c ! Suc i) = LF)"
  using concat_linesFrom [of "[]" c] linesFrom_shape [of "[]" l c]
    linesFrom_terminated [of "[]" l c] crlfKept_nth [OF linesFrom_crlfKept [of "[]" c], of i]
  by (simp_all add: splitLines_linesFrom)

lemma concat_map_concat:
  "concat (map (\<lambda>x. concat (f x)) xs) = concat (concat (map f xs))"
  by (induction xs) simp_all

lemma splitFileContent_small:
  "length (splitLines c) \<le> m
     \<Longrightarrow> splitFileContent m p c = Some [\<lparr>path = p, content = c, sourcePath = p\<rparr>]"
  by (simp add: splitFileContent_def)

lemma splitFileContent_large:
  "m < length (splitLines c) \<Longrightarrow> 1 \<le> m \<Longrightarrow>
   splitFileContent m p c = Some (map (\<lambda>i.
      \<lparr>path = p @ ''#chunk'' @ decimal (i + 1) @ ''of''
                @ decimal (ceilDiv (length (splitLines c)) m),
       content = concat (take m (drop (i * m) (splitLines c))),
       sourcePath = p\<rparr>) [0..<ceilDiv (length (splitLines c)) m])"
proof -
  assume a: "m < length (splitLines c)" "1 \<le> m"
  have sl: "slice xs (i * m) (min (i * m + m) (length xs)) = take m (drop (i * m) xs)"
    for xs :: "string list" and i
    by (simp add: slice_def min_def)
  show ?thesis
    using a by (simp add: splitFileContent_def Let_def sl del: upt_Suc)
qed

text \<open>
  C2. For a threshold of at least one line, \<open>splitFileContent\<close> returns a blob list (it is
  a function of the threshold, the path and the content, with no state). A content of at
  most \<open>maxLinesPerBlob\<close> lines gives the single blob with the path and the content
  unchanged. A longer content gives \<open>n\<close> blobs with \<open>n\<close> the ceiling of the line count over
  the threshold (\<open>(n - 1) * maxLinesPerBlob\<close> is below the line count, which is at most
  \<open>n * maxLinesPerBlob\<close>); blob \<open>i\<close> (from 0) has the path \<open>p#chunk{i+1}of{n}\<close> and the
  lines \<open>i * maxLinesPerBlob\<close> up to \<open>(i + 1) * maxLinesPerBlob\<close>, joined. In both cases the
  contents of the blobs, joined in order, are the content. The lines themselves, joined,
  are the content; each is non-empty and ends in nothing (a trailing fragment), a line
  feed, a carriage return, or a carriage return and a line feed, and has no other line
  feed or carriage return; every line but the last has its terminator; a carriage return
  and the line feed after it are never put in two lines.
\<close>

theorem splitFileContent_spec:
  assumes "1 \<le> maxLinesPerBlob"
  shows "\<exists>blobs. splitFileContent maxLinesPerBlob p c = Some blobs
    \<and> (length (splitLines c) \<le> maxLinesPerBlob
          \<longrightarrow> blobs = [\<lparr>path = p, content = c, sourcePath = p\<rparr>])
    \<and> (maxLinesPerBlob < length (splitLines c) \<longrightarrow>
          (length blobs - 1) * maxLinesPerBlob < length (splitLines c)
          \<and> length (splitLines c) \<le> length blobs * maxLinesPerBlob
          \<and> (\<forall>i<length blobs.
                path (blobs ! i) = p @ ''#chunk'' @ decimal (i + 1) @ ''of''
                                     @ decimal (length blobs)
                \<and> sourcePath (blobs ! i) = p
                \<and> content (blobs ! i)
                    = concat (take maxLinesPerBlob (drop (i * maxLinesPerBlob) (splitLines c)))))
    \<and> concat (map content blobs) = c
    \<and> concat (splitLines c) = c
    \<and> (\<forall>l\<in>set (splitLines c). l \<noteq> [] \<and> lineEnd l \<in> {[], [LF], [CR], [CR, LF]})
    \<and> (\<forall>l\<in>set (butlast (splitLines c)). lineEnd l \<noteq> [])
    \<and> (\<forall>i. Suc i < length (splitLines c)
           \<longrightarrow> \<not> (lineEnd (splitLines c ! i) = [CR] \<and> hd (splitLines c ! Suc i) = LF))"
proof -
  have lines: "concat (splitLines c) = c
    \<and> (\<forall>l\<in>set (splitLines c). l \<noteq> [] \<and> lineEnd l \<in> {[], [LF], [CR], [CR, LF]})
    \<and> (\<forall>l\<in>set (butlast (splitLines c)). lineEnd l \<noteq> [])
    \<and> (\<forall>i. Suc i < length (splitLines c)
           \<longrightarrow> \<not> (lineEnd (splitLines c ! i) = [CR] \<and> hd (splitLines c ! Suc i) = LF))"
    using splitLines_props [where c = c] by blast
  show ?thesis
  proof (cases "length (splitLines c) \<le> maxLinesPerBlob")
  case True
  then show ?thesis
    using splitFileContent_small [OF True, of p] lines
    by auto
next
  case False
  then have big: "maxLinesPerBlob < length (splitLines c)" by simp
  define n where "n = ceilDiv (length (splitLines c)) maxLinesPerBlob"
  define blobs where "blobs = map (\<lambda>i.
      \<lparr>path = p @ ''#chunk'' @ decimal (i + 1) @ ''of'' @ decimal n,
       content = concat (take maxLinesPerBlob (drop (i * maxLinesPerBlob) (splitLines c))),
       sourcePath = p\<rparr>) [0..<n]"
  have res: "splitFileContent maxLinesPerBlob p c = Some blobs"
    unfolding blobs_def n_def by (rule splitFileContent_large [OF big assms])
  have len: "length blobs = n" by (simp add: blobs_def)
  have pos: "0 < length (splitLines c)" using big by linarith
  have bounds: "(n - 1) * maxLinesPerBlob < length (splitLines c)"
      "length (splitLines c) \<le> n * maxLinesPerBlob"
    unfolding n_def using ceilDiv_bounds [OF assms pos] by simp_all
  have nth: "path (blobs ! i) = p @ ''#chunk'' @ decimal (i + 1) @ ''of'' @ decimal n
      \<and> sourcePath (blobs ! i) = p
      \<and> content (blobs ! i)
          = concat (take maxLinesPerBlob (drop (i * maxLinesPerBlob) (splitLines c)))"
    if "i < n" for i
    using that by (simp add: blobs_def del: upt_Suc)
  have "concat (map content blobs)
      = concat (concat (map (\<lambda>i. take maxLinesPerBlob (drop (i * maxLinesPerBlob) (splitLines c))) [0..<n]))"
    by (simp add: blobs_def comp_def concat_map_concat del: upt_Suc)
  also have "\<dots> = concat (take (n * maxLinesPerBlob) (splitLines c))"
    by (simp only: concat_chunks)
  also have "\<dots> = c"
    using bounds(2) lines by simp
  finally have cat: "concat (map content blobs) = c" .
  show ?thesis
    using res len bounds nth cat lines big
    by (intro exI [of _ blobs]) auto
qed
qed

text \<open>
  The theorem at a content of four lines (one per kind of line end, then a fragment)
  and a threshold of two: two chunks, and their contents join to the content.
\<close>

theorem splitFileContent_spec_witness:
  "(1::nat) \<le> 2
   \<and> splitFileContent 2 ''b.py'' [CHR ''a'', LF, CHR ''b'', CR, LF, CHR ''c'', CR, CHR ''d'']
       = Some [\<lparr>path = ''b.py#chunk1of2'', content = [CHR ''a'', LF, CHR ''b'', CR, LF],
                 sourcePath = ''b.py''\<rparr>,
               \<lparr>path = ''b.py#chunk2of2'', content = [CHR ''c'', CR, CHR ''d''],
                 sourcePath = ''b.py''\<rparr>]
   \<and> concat (map content
         [\<lparr>path = ''b.py#chunk1of2'', content = [CHR ''a'', LF, CHR ''b'', CR, LF],
            sourcePath = ''b.py''\<rparr>,
          \<lparr>path = ''b.py#chunk2of2'', content = [CHR ''c'', CR, CHR ''d''],
            sourcePath = ''b.py''\<rparr>])
       = [CHR ''a'', LF, CHR ''b'', CR, LF, CHR ''c'', CR, CHR ''d'']"
proof -
  have h: "(1::nat) \<le> 2" by simp
  have e: "splitFileContent 2 ''b.py'' [CHR ''a'', LF, CHR ''b'', CR, LF, CHR ''c'', CR, CHR ''d'']
       = Some [\<lparr>path = ''b.py#chunk1of2'', content = [CHR ''a'', LF, CHR ''b'', CR, LF],
                 sourcePath = ''b.py''\<rparr>,
               \<lparr>path = ''b.py#chunk2of2'', content = [CHR ''c'', CR, CHR ''d''],
                 sourcePath = ''b.py''\<rparr>]"
    by code_simp
  obtain blobs where
    b: "splitFileContent 2 ''b.py'' [CHR ''a'', LF, CHR ''b'', CR, LF, CHR ''c'', CR, CHR ''d'']
          = Some blobs"
    and c: "concat (map content blobs) = [CHR ''a'', LF, CHR ''b'', CR, LF, CHR ''c'', CR, CHR ''d'']"
    using splitFileContent_spec [OF h, of "''b.py''"
        "[CHR ''a'', LF, CHR ''b'', CR, LF, CHR ''c'', CR, CHR ''d'']"]
    by blast
  from b e have "blobs = [\<lparr>path = ''b.py#chunk1of2'', content = [CHR ''a'', LF, CHR ''b'', CR, LF],
                 sourcePath = ''b.py''\<rparr>,
               \<lparr>path = ''b.py#chunk2of2'', content = [CHR ''c'', CR, CHR ''d''],
                 sourcePath = ''b.py''\<rparr>]" by simp
  with c e h show ?thesis by blast
qed

section \<open>Facts about the reconciler\<close>

subsection \<open>Sets and association lists\<close>

lemma set_setAdd: "set (setAdd s x) = insert x (set s)"
  by (auto simp: setAdd_def)

lemma set_foldl_setAdd: "set (foldl setAdd s xs) = set s \<union> set xs"
  by (induction xs arbitrary: s) (auto simp: set_setAdd)

lemma set_newSet: "set (newSet xs) = set xs"
  by (simp add: newSet_def set_foldl_setAdd)

lemma distinct_foldl_setAdd: "distinct s \<Longrightarrow> distinct (foldl setAdd s xs)"
  by (induction xs arbitrary: s) (auto simp: setAdd_def)

lemma distinct_newSet: "distinct (newSet xs)"
  by (simp add: newSet_def distinct_foldl_setAdd)

lemma foldl_setAdd_distinct: "distinct (s @ xs) \<Longrightarrow> foldl setAdd s xs = s @ xs"
  by (induction xs arbitrary: s) (auto simp: setAdd_def)

lemma newSet_distinct: "distinct xs \<Longrightarrow> newSet xs = xs"
  using foldl_setAdd_distinct [of "[]" xs] by (simp add: newSet_def)

lemma newSet_idem: "newSet (newSet xs) = newSet xs"
  by (rule newSet_distinct) (rule distinct_newSet)

lemma length_newSet: "length (newSet xs) = card (set xs)"
  using distinct_card [OF distinct_newSet, of xs] by (simp add: set_newSet)

lemma set_foldl_foldl_setAdd:
  "set (foldl (\<lambda>names hashes. foldl setAdd names hashes) s xss) = set s \<union> set (concat xss)"
  by (induction xss arbitrary: s) (auto simp: set_foldl_setAdd)

lemma set_collectBlobNames: "set (collectBlobNames fm) = set (concat (map snd fm))"
  by (simp add: collectBlobNames_def set_foldl_foldl_setAdd)

lemma assign_new: "k \<notin> fst ` set m \<Longrightarrow> assign k v m = m @ [(k, v)]"
  by (induction m) auto

lemma map_of_assign: "map_of (assign k v m) = (map_of m)(k \<mapsto> v)"
  by (induction m) (auto simp: fun_eq_iff)

lemma map_fst_assign:
  "map fst (assign k v m) = (if k \<in> fst ` set m then map fst m else map fst m @ [k])"
  by (induction m) (auto simp: rev_image_eqI)

lemma fst_set_assign: "fst ` set (assign k v m) = insert k (fst ` set m)"
proof -
  have "set (map fst (assign k v m)) = insert k (set (map fst m))"
    unfolding map_fst_assign by auto
  then show ?thesis by simp
qed

lemma distinct_assign: "distinct (map fst m) \<Longrightarrow> distinct (map fst (assign k v m))"
  by (induction m) (auto simp: fst_set_assign)

subsection \<open>Replies and batches\<close>

lemma checkBatch_Some:
  assumes "checkBatch reply expected = Some names"
  shows "reply = Replied names \<and> names \<noteq> [] \<and> set names = set expected"
proof -
  from assms obtain r: "reply = Replied names" and ne: "names \<noteq> []"
    and len: "length (newSet expected) = length (newSet names)"
    and sub: "\<not> list_ex (\<lambda>hash. hash \<notin> set (newSet names)) (newSet expected)"
    by (auto simp: checkBatch_def Let_def split: UploadReply.splits if_splits)
  from sub have s: "set expected \<subseteq> set names"
    by (auto simp: list_ex_iff set_newSet)
  from len have c: "card (set expected) = card (set names)"
    by (simp add: length_newSet)
  have "set expected = set names"
    by (rule card_subset_eq [OF _ s c]) simp
  with r ne show ?thesis by simp
qed

lemma checkBatch_accepts:
  "names \<noteq> [] \<Longrightarrow> set names = set expected \<Longrightarrow> checkBatch (Replied names) expected = Some names"
  by (simp add: checkBatch_def Let_def length_newSet list_ex_iff set_newSet)

lemma set_batchOf: "set (batchOf n xs i) \<subseteq> set xs"
proof -
  have "set (take a (drop b xs)) \<subseteq> set xs" for a b
    using set_take_subset [of a "drop b xs"] set_drop_subset [of b xs] by blast
  then show ?thesis by (simp add: batchOf_def slice_def Let_def)
qed

lemma uploadBatch_foldl:
  "foldl (uploadBatch post n blobs hashes) (u, f, s) is =
     (u @ concat (map (\<lambda>i. case batchOutcome post n blobs hashes i of None \<Rightarrow> [] | Some ns \<Rightarrow> ns) is),
      f @ map Suc (filter (\<lambda>i. batchOutcome post n blobs hashes i = None) is),
      s @ map (batchOf n blobs) is)"
proof (induction "is" arbitrary: u f s)
  case Nil
  then show ?case by simp
next
  case (Cons i "is")
  show ?case
  proof (cases "batchOutcome post n blobs hashes i")
    case None
    then have step: "uploadBatch post n blobs hashes (u, f, s) i
        = (u, f @ [i + 1], s @ [batchOf n blobs i])"
      by (simp add: uploadBatch_def)
    show ?thesis
      unfolding foldl_Cons step Cons.IH using None by simp
  next
    case (Some ns)
    then have step: "uploadBatch post n blobs hashes (u, f, s) i
        = (u @ ns, f, s @ [batchOf n blobs i])"
      by (simp add: uploadBatch_def)
    show ?thesis
      unfolding foldl_Cons step Cons.IH using Some by simp
  qed
qed

lemma uploadAll_eq:
  "uploadAll post n blobs hashes =
     (concat (map (\<lambda>i. case batchOutcome post n blobs hashes i of None \<Rightarrow> [] | Some ns \<Rightarrow> ns)
        [0..<ceilDiv (length blobs) n]),
      map Suc (filter (\<lambda>i. batchOutcome post n blobs hashes i = None) [0..<ceilDiv (length blobs) n]),
      map (batchOf n blobs) [0..<ceilDiv (length blobs) n])"
  by (simp add: uploadAll_def Let_def uploadBatch_foldl del: upt_Suc)

lemma batchOutcome_subset:
  "batchOutcome post n blobs hashes i = Some ns \<Longrightarrow> set ns \<subseteq> set hashes"
  using checkBatch_Some set_batchOf unfolding batchOutcome_def by fast

lemma uploaded_subset:
  "uploadAll post n blobs hashes = (u, f, s) \<Longrightarrow> set u \<subseteq> set hashes"
proof -
  assume "uploadAll post n blobs hashes = (u, f, s)"
  then have u: "u = concat (map (\<lambda>i. case batchOutcome post n blobs hashes i of
      None \<Rightarrow> [] | Some ns \<Rightarrow> ns) [0..<ceilDiv (length blobs) n])"
    unfolding uploadAll_eq by simp
  show ?thesis
  proof
    fix x assume "x \<in> set u"
    then obtain i where "x \<in> set (case batchOutcome post n blobs hashes i of
      None \<Rightarrow> [] | Some ns \<Rightarrow> ns)"
      unfolding u by auto
    then obtain ns where "batchOutcome post n blobs hashes i = Some ns" "x \<in> set ns"
      by (cases "batchOutcome post n blobs hashes i") auto
    then show "x \<in> set hashes" using batchOutcome_subset by blast
  qed
qed

lemma hashAll_snoc: "hashAll sha (blobs @ [b]) = hashBlob sha (hashAll sha blobs) b"
  by (simp add: hashAll_def)

lemma hashAll_Nil: "hashAll sha [] = ([], [])"
  by (simp add: hashAll_def)

lemma fst_hashBlob: "fst (hashBlob sha acc b) = assign (blobDigest sha b) b (fst acc)"
  by (cases acc) (simp add: hashBlob_def blobDigest_def Let_def)

lemma map_of_snd_hashBlob:
  "map_of (snd (hashBlob sha acc b)) =
     (map_of (snd acc))(sourcePath b \<mapsto>
        (case map_of (snd acc) (sourcePath b) of None \<Rightarrow> [] | Some hs \<Rightarrow> hs) @ [blobDigest sha b])"
  by (cases acc) (auto simp: hashBlob_def blobDigest_def Let_def map_of_assign split: option.splits)

lemma distinct_snd_hashBlob:
  "distinct (map fst (snd acc)) \<Longrightarrow> distinct (map fst (snd (hashBlob sha acc b)))"
  by (cases acc) (auto simp: hashBlob_def Let_def distinct_assign split: option.splits)

lemma hashAll_keys: "fst ` set (fst (hashAll sha blobs)) = blobDigest sha ` set blobs"
  by (induction blobs rule: rev_induct)
     (auto simp: hashAll_Nil hashAll_snoc fst_hashBlob fst_set_assign)

lemma hashAll_distinct: "distinct (map fst (fst (hashAll sha blobs)))"
  by (induction blobs rule: rev_induct)
     (auto simp: hashAll_Nil hashAll_snoc fst_hashBlob distinct_assign)

lemma hashAll_lookup:
  "map_of (fst (hashAll sha blobs)) h = Some b \<Longrightarrow> blobDigest sha b = h \<and> b \<in> set blobs"
  by (induction blobs arbitrary: b rule: rev_induct)
     (auto simp: hashAll_Nil hashAll_snoc fst_hashBlob map_of_assign split: if_splits)

lemma hashAll_fm_distinct: "distinct (map fst (snd (hashAll sha blobs)))"
  by (induction blobs rule: rev_induct)
     (auto simp: hashAll_Nil hashAll_snoc distinct_snd_hashBlob)

lemma fileDigests_snoc:
  "fileDigests sha (blobs @ [b]) f
     = fileDigests sha blobs f @ (if sourcePath b = f then [blobDigest sha b] else [])"
  by (simp add: fileDigests_def)

lemma fileDigests_Nil_iff: "fileDigests sha blobs f = [] \<longleftrightarrow> f \<notin> sourcePath ` set blobs"
  by (auto simp: fileDigests_def filter_empty_conv)

lemma hashAll_fm_lookup:
  "map_of (snd (hashAll sha blobs)) f =
     (if f \<in> sourcePath ` set blobs then Some (fileDigests sha blobs f) else None)"
proof (induction blobs rule: rev_induct)
  case Nil
  then show ?case by (simp add: hashAll_Nil)
next
  case (snoc b blobs)
  show ?case
  proof (cases "sourcePath b = f")
    case True
    then show ?thesis
      using snoc fileDigests_Nil_iff [of sha blobs f]
      by (auto simp: hashAll_snoc map_of_snd_hashBlob fileDigests_snoc)
  next
    case False
    then show ?thesis
      using snoc by (auto simp: hashAll_snoc map_of_snd_hashBlob fileDigests_snoc)
  qed
qed

lemma hashAll_fm_entries:
  "(f, hs) \<in> set (snd (hashAll sha blobs))
     \<longleftrightarrow> f \<in> sourcePath ` set blobs \<and> hs = fileDigests sha blobs f"
proof -
  have "(f, hs) \<in> set (snd (hashAll sha blobs)) \<longleftrightarrow> map_of (snd (hashAll sha blobs)) f = Some hs"
    using hashAll_fm_distinct [of sha blobs] by simp
  then show ?thesis by (auto simp: hashAll_fm_lookup)
qed

lemma set_fileDigests: "set (fileDigests sha blobs f) \<subseteq> blobDigest sha ` set blobs"
  by (auto simp: fileDigests_def)

lemma hashAll_fm_values:
  "set (concat (map snd (snd (hashAll sha blobs)))) = blobDigest sha ` set blobs"
proof
  show "set (concat (map snd (snd (hashAll sha blobs)))) \<subseteq> blobDigest sha ` set blobs"
  proof
    fix h assume "h \<in> set (concat (map snd (snd (hashAll sha blobs))))"
    then obtain f hs where "(f, hs) \<in> set (snd (hashAll sha blobs))" "h \<in> set hs"
      by auto
    then have "h \<in> set (fileDigests sha blobs f)"
      by (simp add: hashAll_fm_entries)
    then show "h \<in> blobDigest sha ` set blobs"
      using set_fileDigests [of sha blobs f] by blast
  qed
  show "blobDigest sha ` set blobs \<subseteq> set (concat (map snd (snd (hashAll sha blobs))))"
  proof
    fix h assume "h \<in> blobDigest sha ` set blobs"
    then obtain b where b: "b \<in> set blobs" "h = blobDigest sha b" by auto
    then have "(sourcePath b, fileDigests sha blobs (sourcePath b)) \<in> set (snd (hashAll sha blobs))"
      by (simp add: hashAll_fm_entries)
    moreover have "h \<in> set (fileDigests sha blobs (sourcePath b))"
      using b by (auto simp: fileDigests_def)
    ultimately show "h \<in> set (concat (map snd (snd (hashAll sha blobs))))"
      by force
  qed
qed

lemma allBlobHashes_eq: "allBlobHashes sha blobs = map fst (fst (hashAll sha blobs))"
  by (simp add: allBlobHashes_def newSet_distinct hashAll_distinct)

lemma set_allBlobHashes: "set (allBlobHashes sha blobs) = blobDigest sha ` set blobs"
  using hashAll_keys [of sha blobs] by (simp add: allBlobHashes_eq)

lemma distinct_allBlobHashes: "distinct (allBlobHashes sha blobs)"
  by (simp add: allBlobHashes_eq hashAll_distinct)

lemma existingHashes_eq:
  "existingHashes sha store blobs
     = filter (\<lambda>h. h \<in> set (blob_names store)) (allBlobHashes sha blobs)"
  by (simp add: existingHashes_def set_newSet newSet_distinct distinct_allBlobHashes)

lemma newHashes_eq:
  "newHashes sha store blobs
     = filter (\<lambda>h. h \<notin> set (blob_names store)) (allBlobHashes sha blobs)"
  by (simp add: newHashes_def set_newSet)

lemma length_map_filter_total:
  "\<forall>x\<in>set xs. f x \<noteq> None \<Longrightarrow> length (List.map_filter f xs) = length xs"
  by (induction xs) (auto simp: List.map_filter_simps split: option.splits)

lemma length_blobsToUpload:
  "length (blobsToUpload sha store blobs) = length (newHashes sha store blobs)"
proof -
  have "map_of (fst (hashAll sha blobs)) h \<noteq> None" if "h \<in> set (newHashes sha store blobs)" for h
  proof -
    from that have "h \<in> fst ` set (fst (hashAll sha blobs))"
      by (simp add: newHashes_eq allBlobHashes_eq)
    then show ?thesis by (simp add: map_of_eq_None_iff)
  qed
  then show ?thesis
    unfolding blobsToUpload_def by (intro length_map_filter_total) blast
qed

lemma blobsToUpload_Nil_iff:
  "blobsToUpload sha store blobs = [] \<longleftrightarrow> newHashes sha store blobs = []"
  using length_blobsToUpload [of sha store blobs] by (metis length_0_conv)

lemma filter_fold:
  fixes fm :: "(string \<times> string list) list" and av :: "string list"
  defines "step \<equiv> (\<lambda>filteredFileMap filePath.
        (case map_of fm filePath of
           None \<Rightarrow> filteredFileMap
         | Some hs \<Rightarrow>
             (let hashes = filter (\<lambda>hash. hash \<in> set av) hs
              in if hashes \<noteq> [] then assign filePath hashes filteredFileMap
                 else filteredFileMap)))"
  defines "G \<equiv> (\<lambda>k. case map_of fm k of None \<Rightarrow> []
      | Some hs \<Rightarrow> if filter (\<lambda>hash. hash \<in> set av) hs \<noteq> []
                   then [(k, filter (\<lambda>hash. hash \<in> set av) hs)] else [])"
  shows "distinct ks \<Longrightarrow> fst ` set acc \<inter> set ks = {} \<Longrightarrow> foldl step acc ks = acc @ concat (map G ks)"
proof (induction ks arbitrary: acc)
  case Nil
  then show ?case by simp
next
  case (Cons k ks)
  have knew: "k \<notin> fst ` set acc" using Cons.prems(2) by auto
  have st: "step acc k = acc @ G k"
    unfolding step_def G_def using assign_new [OF knew]
    by (auto simp: Let_def split: option.splits)
  have "fst ` set (G k) \<subseteq> {k}"
    unfolding G_def by (auto split: option.splits if_splits)
  then have disj: "fst ` set (acc @ G k) \<inter> set ks = {}"
    using Cons.prems by auto
  have "foldl step acc (k # ks) = foldl step (acc @ G k) ks"
    by (simp add: st)
  also have "\<dots> = (acc @ G k) @ concat (map G ks)"
    using Cons.IH [OF _ disj] Cons.prems(1) by simp
  finally show ?case by simp
qed

lemma concat_map_if_singleton:
  "concat (map (\<lambda>e. if p e then [g e] else []) xs) = map g (filter p xs)"
  by (induction xs) auto

lemma filterFileMap_eq:
  assumes "distinct (map fst fm)"
  shows "filterFileMap av fm
     = map (\<lambda>e. (fst e, filter (\<lambda>h. h \<in> set av) (snd e)))
         (filter (\<lambda>e. filter (\<lambda>h. h \<in> set av) (snd e) \<noteq> []) fm)"
proof -
  have look: "map_of fm (fst e) = Some (snd e)" if "e \<in> set fm" for e
    using map_of_is_SomeI [OF assms, of "fst e" "snd e"] that by simp
  have "filterFileMap av fm = [] @ concat (map (\<lambda>k. case map_of fm k of None \<Rightarrow> []
      | Some hs \<Rightarrow> if filter (\<lambda>hash. hash \<in> set av) hs \<noteq> []
                   then [(k, filter (\<lambda>hash. hash \<in> set av) hs)] else []) (map fst fm))"
    unfolding filterFileMap_def by (rule filter_fold) (use assms in simp_all)
  also have "\<dots> = concat (map (\<lambda>e. if filter (\<lambda>h. h \<in> set av) (snd e) \<noteq> []
        then [(fst e, filter (\<lambda>h. h \<in> set av) (snd e))] else []) fm)"
    by (simp add: comp_def look cong: map_cong)
  finally show ?thesis by (simp add: concat_map_if_singleton)
qed

lemma filterFileMap_keys:
  "distinct (map fst fm) \<Longrightarrow> fst ` set (filterFileMap av fm) \<subseteq> fst ` set fm"
  by (force simp: filterFileMap_eq)

lemma filterFileMap_values:
  "distinct (map fst fm)
     \<Longrightarrow> set (concat (map snd (filterFileMap av fm))) = set (concat (map snd fm)) \<inter> set av"
proof -
  assume d: "distinct (map fst fm)"
  have "x \<in> set (concat (map snd (filterFileMap av fm)))
      \<longleftrightarrow> x \<in> set (concat (map snd fm)) \<and> x \<in> set av" for x
  proof
    assume "x \<in> set (concat (map snd (filterFileMap av fm)))"
    then obtain e where "e \<in> set fm" "x \<in> set (filter (\<lambda>h. h \<in> set av) (snd e))"
      unfolding filterFileMap_eq [OF d] by auto
    then show "x \<in> set (concat (map snd fm)) \<and> x \<in> set av" by auto
  next
    assume "x \<in> set (concat (map snd fm)) \<and> x \<in> set av"
    then obtain e where e: "e \<in> set fm" "x \<in> set (snd e)" "x \<in> set av" by auto
    then have x: "x \<in> set (filter (\<lambda>h. h \<in> set av) (snd e))" by simp
    then have "filter (\<lambda>h. h \<in> set av) (snd e) \<noteq> []"
      by (metis empty_iff empty_set)
    moreover obtain a b where "e = (a, b)" by (cases e)
    ultimately show "x \<in> set (concat (map snd (filterFileMap av fm)))"
      unfolding filterFileMap_eq [OF d] using e(1) x
      by (auto simp: comp_def)
  qed
  then show ?thesis by blast
qed

lemma filterFileMap_distinct:
  "distinct (map fst fm) \<Longrightarrow> distinct (map fst (filterFileMap av fm))"
  by (simp add: filterFileMap_eq comp_def distinct_map_filter)

lemma filterFileMap_lookup:
  assumes "distinct (map fst fm)"
  shows "map_of (filterFileMap av fm) f =
     (case map_of fm f of
        None \<Rightarrow> None
      | Some hs \<Rightarrow> if filter (\<lambda>h. h \<in> set av) hs = [] then None
                   else Some (filter (\<lambda>h. h \<in> set av) hs))"
  using assms unfolding filterFileMap_eq [OF assms]
proof (induction fm)
  case Nil
  then show ?case by simp
next
  case (Cons e fm)
  then show ?case
    by (cases e) (auto simp: map_of_eq_None_iff image_iff split: option.splits)
qed

lemma filterFileMap_all:
  assumes "distinct (map fst fm)" "\<forall>e\<in>set fm. snd e \<noteq> [] \<and> set (snd e) \<subseteq> set av"
  shows "filterFileMap av fm = fm"
proof -
  have f: "filter (\<lambda>h. h \<in> set av) (snd e) = snd e" if "e \<in> set fm" for e
    using that assms(2) by (auto simp: filter_id_conv)
  have "filter (\<lambda>e. filter (\<lambda>h. h \<in> set av) (snd e) \<noteq> []) fm = fm"
    using assms(2) f by (simp add: filter_id_conv)
  moreover have "map (\<lambda>e. (fst e, filter (\<lambda>h. h \<in> set av) (snd e))) fm = fm"
    using f by (simp add: map_idI)
  ultimately show ?thesis by (simp add: filterFileMap_eq [OF assms(1)])
qed

lemma indexProject_saved:
  assumes "indexProject sha n collected doc post we = Some r" and "saved r = Some s"
  shows "\<exists>blobs u f sent.
    collected = Inr blobs \<and> blobs \<noteq> []
    \<and> uploadsOf sha n blobs doc post = (u, f, sent)
    \<and> s = \<lparr>version = 1,
          blob_names = newSet (existingHashes sha (loadIndexStore doc) blobs @ u),
          file_map = filterFileMap (newSet (existingHashes sha (loadIndexStore doc) blobs @ u))
                       (snd (hashAll sha blobs))\<rparr>
    \<and> document r = StoreObject (Some 1) (blob_names s) (Some (file_map s))
    \<and> posted r = sent
    \<and> we = None
    \<and> (\<exists>res. outcome r = Inr res \<and> status res = (if f = [] then Success else PartialSuccess))"
proof (cases collected)
  case (Inl e)
  with assms show ?thesis by (auto simp: indexProject_def)
next
  case (Inr blobs)
  obtain u f sent where up: "uploadsOf sha n blobs doc post = (u, f, sent)"
    by (cases "uploadsOf sha n blobs doc post") auto
  from assms Inr up have "blobs \<noteq> []"
    by (auto simp: indexProject_def split: if_splits)
  moreover from assms Inr up have "we = None"
    by (auto simp: indexProject_def uploadsOf_def Let_def saveIndexStore_def
        split: if_splits option.splits)
  moreover from assms Inr up have
    "s = \<lparr>version = 1,
          blob_names = newSet (existingHashes sha (loadIndexStore doc) blobs @ u),
          file_map = filterFileMap (newSet (existingHashes sha (loadIndexStore doc) blobs @ u))
                       (snd (hashAll sha blobs))\<rparr>
     \<and> document r = StoreObject (Some 1) (blob_names s) (Some (file_map s))
     \<and> posted r = sent
     \<and> (\<exists>res. outcome r = Inr res \<and> status res = (if f = [] then Success else PartialSuccess))"
    by (auto simp: indexProject_def uploadsOf_def Let_def saveIndexStore_def
        split: if_splits option.splits)
  ultimately show ?thesis using Inr up by blast
qed

lemma uploadsOf_subset:
  "uploadsOf sha n blobs doc post = (u, f, sent)
     \<Longrightarrow> set u \<subseteq> set (newHashes sha (loadIndexStore doc) blobs)"
  unfolding uploadsOf_def using uploaded_subset by (auto split: if_splits)

lemma set_existingHashes:
  "set (existingHashes sha store blobs) = blobDigest sha ` set blobs \<inter> set (blob_names store)"
  by (auto simp: existingHashes_eq set_allBlobHashes)

lemma set_newHashes:
  "set (newHashes sha store blobs) = blobDigest sha ` set blobs - set (blob_names store)"
  by (auto simp: newHashes_eq set_allBlobHashes)

lemma indexProject_saved_sets:
  assumes "indexProject sha n (Inr blobs) doc post we = Some r" and "saved r = Some s"
  shows "set (blob_names s)
           = (blobDigest sha ` set blobs \<inter> set (blob_names (loadIndexStore doc)))
             \<union> set (fst (uploadsOf sha n blobs doc post))"
    and "set (blob_names s) \<subseteq> blobDigest sha ` set blobs"
    and "map_of (file_map s) f =
           (if filter (\<lambda>h. h \<in> set (blob_names s)) (fileDigests sha blobs f) = [] then None
            else Some (filter (\<lambda>h. h \<in> set (blob_names s)) (fileDigests sha blobs f)))"
    and "set (concat (map snd (file_map s))) = set (blob_names s)"
    and "fst ` set (file_map s) \<subseteq> sourcePath ` set blobs"
    and "document r = StoreObject (Some 1) (blob_names s) (Some (file_map s))"
    and "version s = 1"
proof -
  from indexProject_saved [OF assms] obtain u fl sent where
    up: "uploadsOf sha n blobs doc post = (u, fl, sent)"
    and s: "s = \<lparr>version = 1,
          blob_names = newSet (existingHashes sha (loadIndexStore doc) blobs @ u),
          file_map = filterFileMap (newSet (existingHashes sha (loadIndexStore doc) blobs @ u))
                       (snd (hashAll sha blobs))\<rparr>"
    and d: "document r = StoreObject (Some 1) (blob_names s) (Some (file_map s))"
    by blast
  have bn: "set (blob_names s)
      = (blobDigest sha ` set blobs \<inter> set (blob_names (loadIndexStore doc))) \<union> set u"
    by (simp add: s set_newSet set_existingHashes)
  show "set (blob_names s)
           = (blobDigest sha ` set blobs \<inter> set (blob_names (loadIndexStore doc)))
             \<union> set (fst (uploadsOf sha n blobs doc post))"
    using bn up by simp
  show sub: "set (blob_names s) \<subseteq> blobDigest sha ` set blobs"
    using bn uploadsOf_subset [OF up] by (auto simp: set_newHashes)
  have fm: "file_map s = filterFileMap (blob_names s) (snd (hashAll sha blobs))"
    by (simp add: s)
  show "map_of (file_map s) f =
           (if filter (\<lambda>h. h \<in> set (blob_names s)) (fileDigests sha blobs f) = [] then None
            else Some (filter (\<lambda>h. h \<in> set (blob_names s)) (fileDigests sha blobs f)))"
    unfolding fm filterFileMap_lookup [OF hashAll_fm_distinct] hashAll_fm_lookup
    using fileDigests_Nil_iff [of sha blobs f] by auto
  show "set (concat (map snd (file_map s))) = set (blob_names s)"
    unfolding fm filterFileMap_values [OF hashAll_fm_distinct] hashAll_fm_values
    using sub by blast
  have "fst ` set (file_map s) \<subseteq> fst ` set (snd (hashAll sha blobs))"
    unfolding fm by (rule filterFileMap_keys [OF hashAll_fm_distinct])
  also have "\<dots> \<subseteq> sourcePath ` set blobs"
    by (auto simp: hashAll_fm_entries)
  finally show "fst ` set (file_map s) \<subseteq> sourcePath ` set blobs" .
  show "document r = StoreObject (Some 1) (blob_names s) (Some (file_map s))" by (rule d)
  show "version s = 1" by (simp add: s)
qed

lemma removeFileFromIndex_saved:
  assumes "removeFileFromIndex doc we rel reason = r" and "saved r = Some s"
  shows "blob_names s = collectBlobNames (file_map s) \<and> version s = 1
    \<and> document r = StoreObject (Some 1) (blob_names s) (Some (file_map s))"
  using assms
  by (auto simp: removeFileFromIndex_def Let_def saveIndexStore_def
      split: if_splits option.splits)

lemma indexFile_saved:
  assumes "indexFile sha n m probe doc post we = Some r" and "saved r = Some s"
  shows "blob_names s = collectBlobNames (file_map s) \<and> version s = 1
    \<and> document r = StoreObject (Some 1) (blob_names s) (Some (file_map s))"
proof (cases "\<exists>rel reason. r = removeFileFromIndex doc we rel reason")
  case True
  then show ?thesis using removeFileFromIndex_saved assms(2) by blast
next
  case False
  with assms show ?thesis
    by (auto simp: indexFile_def Let_def saveIndexStore_def
        split: if_splits option.splits sum.splits prod.splits)
qed

lemma ceilDiv_0: "ceilDiv 0 b = 0"
  by (cases "b = 0") (simp_all add: ceilDiv_def)

lemma in_concat_outcomes:
  "h \<in> set (concat (map (\<lambda>i. case g i of None \<Rightarrow> [] | Some ns \<Rightarrow> ns) is))
     \<longleftrightarrow> (\<exists>i\<in>set is. \<exists>ns. g i = Some ns \<and> h \<in> set ns)"
  by (induction "is") (auto split: option.splits)

text \<open>
  C1. Whenever a run of \<open>indexProject\<close>, of \<open>indexFile\<close> or of its removal path
  \<open>removeFileFromIndex\<close> writes the index file (\<open>saved r = Some s\<close>: \<open>saveIndexStore\<close> ran
  and did not throw), the file holds the store \<open>s\<close>, loading it gives \<open>s\<close> back, and a
  digest is in \<open>blob_names\<close> exactly when it is in the digest list of some file of
  \<open>file_map\<close>.
\<close>

theorem commit_restores_invariant:
  assumes "indexProject sha256 batchSize collected doc post writeError = Some r
         \<or> indexFile sha256 batchSize maxLinesPerBlob probe doc post writeError = Some r
         \<or> removeFileFromIndex doc writeError rel reason = r"
    and "saved r = Some s"
  shows "document r = StoreObject (Some 1) (blob_names s) (Some (file_map s))
    \<and> loadIndexStore (document r) = s
    \<and> (\<forall>h. h \<in> set (blob_names s) \<longleftrightarrow> (\<exists>f hs. (f, hs) \<in> set (file_map s) \<and> h \<in> set hs))"
proof -
  have core: "document r = StoreObject (Some 1) (blob_names s) (Some (file_map s))
      \<and> version s = 1 \<and> set (blob_names s) = set (concat (map snd (file_map s)))"
    using assms(1)
  proof (elim disjE)
    assume run: "indexProject sha256 batchSize collected doc post writeError = Some r"
    from indexProject_saved [OF run assms(2)] obtain blobs where "collected = Inr blobs"
      by blast
    with run have run': "indexProject sha256 batchSize (Inr blobs) doc post writeError = Some r"
      by simp
    show ?thesis
      using indexProject_saved_sets(4,6,7) [OF run' assms(2)] by simp
  next
    assume "indexFile sha256 batchSize maxLinesPerBlob probe doc post writeError = Some r"
    from indexFile_saved [OF this assms(2)] show ?thesis
      by (simp add: set_collectBlobNames)
  next
    assume "removeFileFromIndex doc writeError rel reason = r"
    from removeFileFromIndex_saved [OF this assms(2)] show ?thesis
      by (simp add: set_collectBlobNames)
  qed
  then have "loadIndexStore (document r) = s" by simp
  moreover have "h \<in> set (concat (map snd (file_map s)))
      \<longleftrightarrow> (\<exists>f hs. (f, hs) \<in> set (file_map s) \<and> h \<in> set hs)" for h
    by force
  ultimately show ?thesis using core by simp
qed

text \<open>
  C10. In the store a full reindex commits, a path no blob of this run comes from has
  no entry in \<open>file_map\<close> (so a file of the previous store that was deleted, excluded
  or lost its extension since is gone), a digest that is the digest of no blob of this
  run is not in \<open>blob_names\<close>, and every digest listed for a file is the digest of a blob
  of this run.
\<close>

theorem full_reindex_drops_uncollected:
  assumes "indexProject sha256 batchSize (Inr blobs) doc post writeError = Some r"
    and "saved r = Some s"
  shows "(\<forall>f. f \<notin> sourcePath ` set blobs \<longrightarrow> map_of (file_map s) f = None)
    \<and> (\<forall>h. h \<notin> blobDigest sha256 ` set blobs \<longrightarrow> h \<notin> set (blob_names s))
    \<and> (\<forall>f hs. (f, hs) \<in> set (file_map s) \<longrightarrow> set hs \<subseteq> blobDigest sha256 ` set blobs)"
proof -
  have a: "fst ` set (file_map s) \<subseteq> sourcePath ` set blobs"
    and b: "set (blob_names s) \<subseteq> blobDigest sha256 ` set blobs"
    and c: "set (concat (map snd (file_map s))) = set (blob_names s)"
    using indexProject_saved_sets [OF assms] by blast+
  have "map_of (file_map s) f = None" if "f \<notin> sourcePath ` set blobs" for f
    using that a by (auto simp: map_of_eq_None_iff)
  moreover have "set hs \<subseteq> blobDigest sha256 ` set blobs" if "(f, hs) \<in> set (file_map s)" for f hs
  proof -
    from that have "set hs \<subseteq> set (concat (map snd (file_map s)))" by force
    with b c show ?thesis by simp
  qed
  ultimately show ?thesis using b by blast
qed

text \<open>
  C3 (as amended). In the store a full reindex commits, \<open>blob_names\<close> holds exactly the
  digests of this run's blobs that the loaded store already knew and the digests
  returned by the batches whose reply was accepted. A file's entry is the list of its
  digests, in chunk order, with those not in \<open>blob_names\<close> removed, and there is no entry
  when nothing is left: a file all of whose blobs are unavailable is absent, a file with
  some blobs available stays with the shorter list.
\<close>

theorem partial_failure_containment:
  assumes "indexProject sha256 batchSize (Inr blobs) doc post writeError = Some r"
    and "saved r = Some s"
  shows "(\<forall>h. h \<in> set (blob_names s) \<longleftrightarrow>
            (h \<in> blobDigest sha256 ` set blobs \<and> h \<in> set (blob_names (loadIndexStore doc)))
            \<or> (\<exists>i names. i < ceilDiv (length (blobsToUpload sha256 (loadIndexStore doc) blobs)) batchSize
                 \<and> batchOutcome post batchSize (blobsToUpload sha256 (loadIndexStore doc) blobs)
                      (newHashes sha256 (loadIndexStore doc) blobs) i = Some names
                 \<and> h \<in> set names))
    \<and> (\<forall>f. map_of (file_map s) f =
           (if filter (\<lambda>h. h \<in> set (blob_names s)) (fileDigests sha256 blobs f) = [] then None
            else Some (filter (\<lambda>h. h \<in> set (blob_names s)) (fileDigests sha256 blobs f))))"
proof -
  let ?store = "loadIndexStore doc"
  let ?up = "blobsToUpload sha256 ?store blobs"
  let ?new = "newHashes sha256 ?store blobs"
  have u: "h \<in> set (fst (uploadsOf sha256 batchSize blobs doc post)) \<longleftrightarrow>
      (\<exists>i names. i < ceilDiv (length ?up) batchSize
         \<and> batchOutcome post batchSize ?up ?new i = Some names \<and> h \<in> set names)" for h
  proof (cases "?up = []")
    case True
    then show ?thesis by (simp add: uploadsOf_def ceilDiv_0)
  next
    case False
    have "h \<in> set (concat (map (\<lambda>i. case batchOutcome post batchSize ?up ?new i of
        None \<Rightarrow> [] | Some ns \<Rightarrow> ns) [0..<ceilDiv (length ?up) batchSize])) \<longleftrightarrow>
      (\<exists>i names. i < ceilDiv (length ?up) batchSize
         \<and> batchOutcome post batchSize ?up ?new i = Some names \<and> h \<in> set names)"
      unfolding in_concat_outcomes by auto
    with False show ?thesis by (simp add: uploadsOf_def uploadAll_eq del: upt_Suc)
  qed
  show ?thesis
    using indexProject_saved_sets(1,3) [OF assms] u by auto
qed

lemma calculateBlobName_eq_iff:
  "calculateBlobName sha p1 c1 = calculateBlobName sha p2 c2
     \<longleftrightarrow> sha (utf8 p1 @ utf8 c1) = sha (utf8 p2 @ utf8 c2)"
  unfolding calculateBlobName_def using toHex_inj [of "sha (utf8 p1 @ utf8 c1)" "sha (utf8 p2 @ utf8 c2)"] by auto

lemma length_utf8_ascii:
  "\<forall>c\<in>set s. of_char c < (128 :: nat) \<Longrightarrow> length (utf8 s) = length s"
  by (induction s) (auto simp: utf8_def utf8_char_def)

lemma concat_all_failed:
  "(\<And>i. i < k \<Longrightarrow> g i = None)
     \<Longrightarrow> concat (map (\<lambda>i. case g i of None \<Rightarrow> [] | Some ns \<Rightarrow> ns) [0..<k]) = []"
  by simp

lemma allBlobHashes_nonempty: "blobs \<noteq> [] \<Longrightarrow> allBlobHashes sha blobs \<noteq> []"
  using set_allBlobHashes [of sha blobs] by (cases blobs) auto

lemma indexProject_unfold:
  assumes "blobs \<noteq> []"
    and "blobsToUpload sha (loadIndexStore doc) blobs = [] \<or> 0 < n"
    and "uploadsOf sha n blobs doc post = (u, f, sent)"
  shows "indexProject sha n (Inr blobs) doc post None =
     (if blobsToUpload sha (loadIndexStore doc) blobs \<noteq> [] \<and> u = []
         \<and> existingHashes sha (loadIndexStore doc) blobs = []
      then Some \<lparr>outcome = Inr (plainResult Error ''All batches failed on first indexing''),
                  document = doc, saved = None, posted = sent\<rparr>
      else Some \<lparr>outcome = Inr
                   \<lparr>status = (if f = [] then Success else PartialSuccess),
                    message = ''Indexed ''
                      @ decimal (length (newSet (existingHashes sha (loadIndexStore doc) blobs @ u)))
                      @ '' blobs (existing: ''
                      @ decimal (length (existingHashes sha (loadIndexStore doc) blobs))
                      @ '', new: '' @ decimal (length u) @ '')'',
                    stats = Some (length (newSet (existingHashes sha (loadIndexStore doc) blobs @ u)),
                                  length (existingHashes sha (loadIndexStore doc) blobs), length u)\<rparr>,
                 document = StoreObject (Some 1)
                   (newSet (existingHashes sha (loadIndexStore doc) blobs @ u))
                   (Some (filterFileMap (newSet (existingHashes sha (loadIndexStore doc) blobs @ u))
                            (snd (hashAll sha blobs)))),
                 saved = Some \<lparr>version = 1,
                   blob_names = newSet (existingHashes sha (loadIndexStore doc) blobs @ u),
                   file_map = filterFileMap (newSet (existingHashes sha (loadIndexStore doc) blobs @ u))
                            (snd (hashAll sha blobs))\<rparr>,
                 posted = sent\<rparr>)"
  using assms
  by (auto simp: indexProject_def uploadsOf_def Let_def saveIndexStore_def split: if_splits)

lemma batchOf_take_drop: "batchOf n xs i = take n (drop (i * n) xs)"
  by (simp add: batchOf_def slice_def Let_def min_def)

lemma batches_cover:
  assumes "0 < n"
  shows "set (concat (map (batchOf n xs) [0..<ceilDiv (length xs) n])) = set xs"
proof (cases "xs = []")
  case True
  then show ?thesis by (simp add: ceilDiv_0)
next
  case False
  then have pos: "0 < length xs" by simp
  have n1: "1 \<le> n" using assms by simp
  have "concat (map (batchOf n xs) [0..<ceilDiv (length xs) n])
      = take (ceilDiv (length xs) n * n) xs"
    using concat_chunks [of n xs "ceilDiv (length xs) n"] by (simp add: batchOf_take_drop [abs_def])
  also have "\<dots> = xs"
    using ceilDiv_bounds [OF n1 pos] by simp
  finally show ?thesis by simp
qed

lemma uploads_all_accepted:
  assumes "uploadAll post n blobs hashes = (u, [], sent)" "0 < n" "length blobs = length hashes"
  shows "set u = set hashes"
proof -
  let ?k = "ceilDiv (length blobs) n"
  let ?g = "batchOutcome post n blobs hashes"
  from assms(1) have u: "u = concat (map (\<lambda>i. case ?g i of None \<Rightarrow> [] | Some ns \<Rightarrow> ns) [0..<?k])"
    and f: "filter (\<lambda>i. ?g i = None) [0..<?k] = []"
    unfolding uploadAll_eq by simp_all
  have ok: "\<exists>ns. ?g i = Some ns \<and> set ns = set (batchOf n hashes i)" if "i < ?k" for i
  proof -
    from f that have "?g i \<noteq> None" by (auto simp: filter_empty_conv)
    then obtain ns where ns: "?g i = Some ns" by auto
    then have "set ns = set (batchOf n hashes i)"
      unfolding batchOutcome_def using checkBatch_Some by blast
    with ns show ?thesis by blast
  qed
  have "set u = (\<Union>i\<in>{0..<?k}. set (batchOf n hashes i))"
  proof (rule set_eqI)
    fix h
    show "h \<in> set u \<longleftrightarrow> h \<in> (\<Union>i\<in>{0..<?k}. set (batchOf n hashes i))"
      unfolding u in_concat_outcomes using ok by fastforce
  qed
  also have "\<dots> = set (concat (map (batchOf n hashes) [0..<ceilDiv (length hashes) n]))"
    using assms(3) by simp
  also have "\<dots> = set hashes" by (rule batches_cover [OF assms(2)])
  finally show ?thesis .
qed

lemma fileDigests_nonempty:
  assumes "e \<in> set (snd (hashAll sha blobs))"
  shows "snd e \<noteq> [] \<and> set (snd e) \<subseteq> blobDigest sha ` set blobs"
proof -
  obtain f hs where e: "e = (f, hs)" by (cases e)
  with assms have "f \<in> sourcePath ` set blobs" "hs = fileDigests sha blobs f"
    by (simp_all add: hashAll_fm_entries)
  then show ?thesis
    using fileDigests_Nil_iff [of sha blobs f] set_fileDigests [of sha blobs f] e by simp
qed

lemma run_with_complete_store:
  assumes "blobs \<noteq> []" "blobDigest sha ` set blobs \<subseteq> set (blob_names (loadIndexStore doc))"
  shows "indexProject sha n (Inr blobs) doc post None =
     Some \<lparr>outcome = Inr
             \<lparr>status = Success,
              message = ''Indexed '' @ decimal (length (allBlobHashes sha blobs))
                @ '' blobs (existing: '' @ decimal (length (allBlobHashes sha blobs))
                @ '', new: '' @ decimal 0 @ '')'',
              stats = Some (length (allBlobHashes sha blobs), length (allBlobHashes sha blobs), 0)\<rparr>,
            document = StoreObject (Some 1) (allBlobHashes sha blobs) (Some (snd (hashAll sha blobs))),
            saved = Some \<lparr>version = 1, blob_names = allBlobHashes sha blobs,
                           file_map = snd (hashAll sha blobs)\<rparr>,
            posted = []\<rparr>"
proof -
  let ?store = "loadIndexStore doc"
  have new: "newHashes sha ?store blobs = []"
    using assms(2) by (auto simp: newHashes_eq filter_empty_conv set_allBlobHashes)
  then have up: "blobsToUpload sha ?store blobs = []"
    by (simp add: blobsToUpload_Nil_iff)
  have ex: "existingHashes sha ?store blobs = allBlobHashes sha blobs"
    using assms(2) by (auto simp: existingHashes_eq filter_id_conv set_allBlobHashes)
  have av: "newSet (allBlobHashes sha blobs) = allBlobHashes sha blobs"
    by (simp add: newSet_distinct distinct_allBlobHashes)
  have fm: "filterFileMap (allBlobHashes sha blobs) (snd (hashAll sha blobs)) = snd (hashAll sha blobs)"
    by (rule filterFileMap_all [OF hashAll_fm_distinct])
       (use fileDigests_nonempty in \<open>simp add: set_allBlobHashes\<close>)
  have u: "uploadsOf sha n blobs doc post = ([], [], [])"
    by (simp add: uploadsOf_def up)
  show ?thesis
    using indexProject_unfold [OF assms(1) _ u] up ex av fm by simp
qed

lemma indexProject_success:
  assumes "indexProject sha n (Inr blobs) doc post None = Some r"
    and "outcome r = Inr res" "status res = Success"
  shows "blobs \<noteq> []
    \<and> saved r = Some \<lparr>version = 1, blob_names = blob_names (loadIndexStore (document r)),
                       file_map = snd (hashAll sha blobs)\<rparr>
    \<and> document r = StoreObject (Some 1) (blob_names (loadIndexStore (document r)))
         (Some (snd (hashAll sha blobs)))
    \<and> set (blob_names (loadIndexStore (document r))) = blobDigest sha ` set blobs"
proof -
  let ?store = "loadIndexStore doc"
  let ?up = "blobsToUpload sha ?store blobs"
  let ?new = "newHashes sha ?store blobs"
  let ?ex = "existingHashes sha ?store blobs"
  have ne: "blobs \<noteq> []"
    using assms by (auto simp: indexProject_def plainResult_def split: if_splits)
  have n0: "?up = [] \<or> 0 < n"
    using assms(1) ne by (auto simp: indexProject_def Let_def split: if_splits)
  obtain u f sent where up: "uploadsOf sha n blobs doc post = (u, f, sent)"
    by (cases "uploadsOf sha n blobs doc post") auto
  note unf = indexProject_unfold [OF ne n0 up]
  from assms unf have f: "f = []" and nofirst: "\<not> (?up \<noteq> [] \<and> u = [] \<and> ?ex = [])"
    by (auto simp: plainResult_def split: if_splits)
  have su: "set u = set ?new"
  proof (cases "?up = []")
    case True
    with up show ?thesis by (simp add: uploadsOf_def blobsToUpload_Nil_iff)
  next
    case False
    with n0 have "0 < n" by simp
    moreover from up False f have "uploadAll post n ?up ?new = (u, [], sent)"
      by (simp add: uploadsOf_def)
    ultimately show ?thesis
      using uploads_all_accepted length_blobsToUpload by blast
  qed
  have av: "set (newSet (?ex @ u)) = blobDigest sha ` set blobs"
    using su by (auto simp: set_newSet set_existingHashes set_newHashes)
  have fm: "filterFileMap (newSet (?ex @ u)) (snd (hashAll sha blobs)) = snd (hashAll sha blobs)"
    by (rule filterFileMap_all [OF hashAll_fm_distinct])
       (use fileDigests_nonempty av in simp)
  from assms(1) unf nofirst have r: "r = \<lparr>outcome = Inr
                   \<lparr>status = (if f = [] then Success else PartialSuccess),
                    message = ''Indexed ''
                      @ decimal (length (newSet (?ex @ u)))
                      @ '' blobs (existing: ''
                      @ decimal (length ?ex)
                      @ '', new: '' @ decimal (length u) @ '')'',
                    stats = Some (length (newSet (?ex @ u)), length ?ex, length u)\<rparr>,
                 document = StoreObject (Some 1) (newSet (?ex @ u))
                   (Some (filterFileMap (newSet (?ex @ u)) (snd (hashAll sha blobs)))),
                 saved = Some \<lparr>version = 1, blob_names = newSet (?ex @ u),
                   file_map = filterFileMap (newSet (?ex @ u)) (snd (hashAll sha blobs))\<rparr>,
                 posted = sent\<rparr>"
    by (simp split: if_splits)
  show ?thesis
    using ne av by (simp add: r fm)
qed

text \<open>
  C6 (as amended). After a full reindex that returned \<open>success\<close> (no failed batch), a
  second full reindex of the same blobs sends no batch, returns \<open>success\<close>, and commits a
  store with the same \<open>file_map\<close> (same paths in the same order, same digest lists), the
  same version and the same set of \<open>blob_names\<close>; a third run returns exactly what the
  second did, so from the second run on the index file is reproduced as it is.
\<close>

theorem reindex_is_stable:
  assumes "indexProject sha256 batchSize (Inr blobs) doc post None = Some r1"
    and "outcome r1 = Inr res1" and "status res1 = Success"
  shows "\<exists>r2 res2 s1 s2.
      indexProject sha256 batchSize' (Inr blobs) (document r1) post' None = Some r2
    \<and> posted r2 = []
    \<and> outcome r2 = Inr res2 \<and> status res2 = Success
    \<and> saved r1 = Some s1 \<and> saved r2 = Some s2
    \<and> file_map s2 = file_map s1
    \<and> set (blob_names s2) = set (blob_names s1)
    \<and> version s2 = version s1
    \<and> indexProject sha256 batchSize'' (Inr blobs) (document r2) post'' None = Some r2"
proof -
  from indexProject_success [OF assms] have ne: "blobs \<noteq> []"
    and s1: "saved r1 = Some \<lparr>version = 1, blob_names = blob_names (loadIndexStore (document r1)),
                       file_map = snd (hashAll sha256 blobs)\<rparr>"
    and cover: "set (blob_names (loadIndexStore (document r1))) = blobDigest sha256 ` set blobs"
    by blast+
  define r2 where "r2 = \<lparr>outcome = Inr
             \<lparr>status = Success,
              message = ''Indexed '' @ decimal (length (allBlobHashes sha256 blobs))
                @ '' blobs (existing: '' @ decimal (length (allBlobHashes sha256 blobs))
                @ '', new: '' @ decimal 0 @ '')'',
              stats = Some (length (allBlobHashes sha256 blobs), length (allBlobHashes sha256 blobs), 0)\<rparr>,
            document = StoreObject (Some 1) (allBlobHashes sha256 blobs) (Some (snd (hashAll sha256 blobs))),
            saved = Some \<lparr>version = 1, blob_names = allBlobHashes sha256 blobs,
                           file_map = snd (hashAll sha256 blobs)\<rparr>,
            posted = []\<rparr>"
  have run2: "indexProject sha256 batchSize' (Inr blobs) (document r1) post' None = Some r2"
    unfolding r2_def by (rule run_with_complete_store [OF ne]) (simp add: cover)
  have "blobDigest sha256 ` set blobs \<subseteq> set (blob_names (loadIndexStore (document r2)))"
    by (simp add: r2_def set_allBlobHashes)
  from run_with_complete_store [OF ne this]
  have run3: "indexProject sha256 batchSize'' (Inr blobs) (document r2) post'' None = Some r2"
    unfolding r2_def by simp
  show ?thesis
    using run2 run3 s1 cover by (auto simp: r2_def set_allBlobHashes)
qed


lemma hashFile_snoc: "hashFile sha (bs @ [b]) = hashFileBlob sha (hashFile sha bs) b"
  by (simp add: hashFile_def)

lemma hashFile_Nil: "hashFile sha [] = ([], [])"
  by (simp add: hashFile_def)

lemma hashFileBlob_eq:
  "hashFileBlob sha acc b = (assign (blobDigest sha b) b (fst acc), snd acc @ [blobDigest sha b])"
  by (cases acc) (simp add: hashFileBlob_def blobDigest_def Let_def)

lemma snd_hashFile: "snd (hashFile sha bs) = map (blobDigest sha) bs"
  by (induction bs rule: rev_induct) (simp_all add: hashFile_Nil hashFile_snoc hashFileBlob_eq)

lemma hashFile_lookup:
  "h \<in> blobDigest sha ` set bs
     \<Longrightarrow> \<exists>b. map_of (fst (hashFile sha bs)) h = Some b \<and> blobDigest sha b = h"
  by (induction bs rule: rev_induct)
     (auto simp: hashFile_Nil hashFile_snoc hashFileBlob_eq map_of_assign)

lemma map_filter_lookup:
  "\<forall>h\<in>set hs. \<exists>b. m h = Some b \<and> g b = h \<Longrightarrow> map g (List.map_filter m hs) = hs"
  by (induction hs) (auto simp: List.map_filter_simps)

lemma batchOf_map: "batchOf n (map g xs) i = map g (batchOf n xs i)"
  by (simp add: batchOf_take_drop take_map drop_map)

lemma posted_removeFileFromIndex: "posted (removeFileFromIndex doc we rel reason) = []"
  by (simp add: removeFileFromIndex_def Let_def saveIndexStore_def split: option.splits)

lemma uploadAll_failed:
  assumes "uploadAll post n blobs hashes = (u, f, sent)"
    and "i < length sent" and "batchOutcome post n blobs hashes i = None"
  shows "f \<noteq> []"
proof -
  from assms(1) have s: "sent = map (batchOf n blobs) [0..<ceilDiv (length blobs) n]"
    and f: "f = map Suc (filter (\<lambda>i. batchOutcome post n blobs hashes i = None)
                 [0..<ceilDiv (length blobs) n])"
    unfolding uploadAll_eq by simp_all
  from s assms(2) have "i \<in> set [0..<ceilDiv (length blobs) n]" by simp
  with assms(3) have "i \<in> set (filter (\<lambda>i. batchOutcome post n blobs hashes i = None)
                 [0..<ceilDiv (length blobs) n])" by simp
  then show ?thesis unfolding f by (metis Nil_is_map_conv empty_iff empty_set)
qed

lemma uploadAll_sent_nth:
  assumes "uploadAll post n blobs hashes = (u, f, sent)" and "i < length sent"
  shows "sent ! i = batchOf n blobs i"
proof -
  from assms(1) have s: "sent = map (batchOf n blobs) [0..<ceilDiv (length blobs) n]"
    unfolding uploadAll_eq by simp
  with assms(2) show ?thesis by simp
qed

text \<open>
  C4. In a run of \<open>indexFile\<close> that returns, if some batch it sent failed (the reply to
  batch \<open>i\<close> is rejected by the checks against the digests of the blobs of that batch),
  the result is \<open>error\<close>, nothing is written, and the index file is exactly as before.
\<close>

theorem single_file_failure_commits_nothing:
  assumes "indexFile sha256 batchSize maxLinesPerBlob probe doc post writeError = Some r"
    and "i < length (posted r)"
    and "checkBatch (post i (posted r ! i)) (map (blobDigest sha256) (posted r ! i)) = None"
  shows "outcome r = Inr (plainResult Error ''File indexing failed'')
    \<and> document r = doc \<and> saved r = None"
proof -
  from assms(2) have pne: "posted r \<noteq> []" by auto
  with assms(1) obtain rel c fileBlobs where
    probe: "relativePath probe = Some rel" "rel \<noteq> []" "\<not> excluded probe" "extensionIndexed probe"
      "isFile probe" "readFile probe = Inr c"
      "splitFileContent maxLinesPerBlob rel c = Some fileBlobs"
    by (auto simp: indexFile_def posted_removeFileFromIndex
        split: option.splits if_splits sum.splits)
  let ?store = "loadIndexStore doc"
  let ?bhm = "fst (hashFile sha256 fileBlobs)"
  let ?next = "snd (hashFile sha256 fileBlobs)"
  let ?hs = "filter (\<lambda>hash. hash \<notin> set (newSet (blob_names ?store))) ?next"
  let ?up = "List.map_filter (map_of ?bhm) ?hs"
  obtain u f sent where up: "(if ?up \<noteq> [] then uploadAll post batchSize ?up ?hs else ([], [], []))
      = (u, f, sent)"
    by (cases "(if ?up \<noteq> [] then uploadAll post batchSize ?up ?hs else ([], [], []))") auto
  from assms(1) pne probe up have sent: "posted r = sent"
    by (auto simp: indexFile_def Let_def saveIndexStore_def
        split: option.splits if_splits)
  with pne up have upne: "?up \<noteq> []" and ua: "uploadAll post batchSize ?up ?hs = (u, f, sent)"
    by (auto split: if_splits)
  have "\<forall>h\<in>set ?hs. \<exists>b. map_of ?bhm h = Some b \<and> blobDigest sha256 b = h"
    using hashFile_lookup [of _ sha256 fileBlobs] by (auto simp: snd_hashFile)
  then have hs: "?hs = map (blobDigest sha256) ?up"
    by (rule map_filter_lookup [symmetric])
  have nth: "posted r ! i = batchOf batchSize ?up i"
    using uploadAll_sent_nth [OF ua] assms(2) sent by simp
  have "batchOf batchSize ?hs i = map (blobDigest sha256) (batchOf batchSize ?up i)"
    by (subst hs) (rule batchOf_map)
  with assms(3) nth have "batchOutcome post batchSize ?up ?hs i = None"
    by (simp add: batchOutcome_def)
  from uploadAll_failed [OF ua _ this] assms(2) sent have "f \<noteq> []" by simp
  with assms(1) probe up upne pne show ?thesis
    by (auto simp: indexFile_def Let_def split: if_splits)
qed

lemma decimal_digits:
  "decimal 0 = ''0''" "decimal 1 = ''1''" "decimal (Suc 0) = ''1''"
  "decimal 2 = ''2''" "decimal (Suc (Suc 0)) = ''2''"
  by code_simp+

lemma blobDigest_not_short:
  "length s \<noteq> 64 \<Longrightarrow> blobDigest sha b \<noteq> s" "length s \<noteq> 64 \<Longrightarrow> s \<noteq> blobDigest sha b"
  by (auto simp: blobDigest_def calculateBlobName_def length_toHex)

lemma example_digests:
  "blobDigest byteCount chunk1 \<noteq> blobDigest byteCount chunk2"
  "blobDigest byteCount chunk2 \<noteq> blobDigest byteCount chunk1"
  "blobDigest byteCount fileA \<noteq> blobDigest byteCount chunk1"
  "blobDigest byteCount chunk1 \<noteq> blobDigest byteCount fileA"
  "blobDigest byteCount fileA \<noteq> blobDigest byteCount chunk2"
  "blobDigest byteCount chunk2 \<noteq> blobDigest byteCount fileA"
  by (simp_all add: blobDigest_def chunk1_def chunk2_def fileA_def calculateBlobName_eq_iff
      byteCount_def length_utf8_ascii LF_def)

lemma hashBlob_digest:
  "hashBlob sha (blobHashMap, nextFileMap) blob =
     (let fm = (if map_of nextFileMap (sourcePath blob) = None
                then assign (sourcePath blob) [] nextFileMap else nextFileMap)
      in (assign (blobDigest sha blob) blob blobHashMap,
          (case map_of fm (sourcePath blob) of
             Some hashes \<Rightarrow> assign (sourcePath blob) (hashes @ [blobDigest sha blob]) fm
           | None \<Rightarrow> fm)))"
  unfolding hashBlob_def blobDigest_def Let_def by simp

lemmas example_defs = indexProject_def hashAll_def hashBlob_digest allBlobHashes_def
  existingHashes_def newHashes_def blobsToUpload_def uploadAll_def uploadBatch_def
  batchOutcome_def batchOf_def checkBatch_def slice_def ceilDiv_def newSet_def setAdd_def
  filterFileMap_def saveIndexStore_def emptyStore_def plainResult_def echoRemote_def
  firstBatchOnly_def reversedEcho_def unreachable_def Let_def List.map_filter_simps
  decimal_digits blobDigest_not_short

lemma chunk_fields:
  "path chunk1 = ''b.py#chunk1of2''" "sourcePath chunk1 = ''b.py''"
  "path chunk2 = ''b.py#chunk2of2''" "sourcePath chunk2 = ''b.py''"
  "path fileA = ''a.py''" "sourcePath fileA = ''a.py''"
  by (simp_all add: chunk1_def chunk2_def fileA_def)

lemma example_partial_run:
  "indexProject byteCount 1 (Inr [chunk1, chunk2]) NoDocument (firstBatchOnly byteCount) None =
     Some \<lparr>outcome = Inr \<lparr>status = PartialSuccess,
                           message = ''Indexed 1 blobs (existing: 0, new: 1)'',
                           stats = Some (1, 0, 1)\<rparr>,
            document = StoreObject (Some 1) [blobDigest byteCount chunk1]
                         (Some [(''b.py'', [blobDigest byteCount chunk1])]),
            saved = Some \<lparr>version = 1, blob_names = [blobDigest byteCount chunk1],
                           file_map = [(''b.py'', [blobDigest byteCount chunk1])]\<rparr>,
            posted = [[chunk1], [chunk2]]\<rparr>"
  by (simp add: example_defs example_digests chunk_fields)

section \<open>Worked runs of the reconciler\<close>

lemma example_first_run_fails:
  "indexProject byteCount 1 (Inr [chunk1, chunk2]) NoDocument unreachable writeError =
     Some \<lparr>outcome = Inr (plainResult Error ''All batches failed on first indexing''),
            document = NoDocument, saved = None, posted = [[chunk1], [chunk2]]\<rparr>"
  by (simp add: example_defs example_digests chunk_fields)

lemma example_full_run:
  "indexProject byteCount 10 (Inr [fileA, chunk1])
       (StoreObject (Some 1) [''old''] (Some [(''gone.py'', [''old''])]))
       (reversedEcho byteCount) None =
     Some \<lparr>outcome = Inr \<lparr>status = Success,
                           message = ''Indexed 2 blobs (existing: 0, new: 2)'',
                           stats = Some (2, 0, 2)\<rparr>,
            document = StoreObject (Some 1)
                         [blobDigest byteCount chunk1, blobDigest byteCount fileA]
                         (Some [(''a.py'', [blobDigest byteCount fileA]),
                                (''b.py'', [blobDigest byteCount chunk1])]),
            saved = Some \<lparr>version = 1,
                           blob_names = [blobDigest byteCount chunk1, blobDigest byteCount fileA],
                           file_map = [(''a.py'', [blobDigest byteCount fileA]),
                                       (''b.py'', [blobDigest byteCount chunk1])]\<rparr>,
            posted = [[fileA, chunk1]]\<rparr>"
  by (simp add: example_defs example_digests chunk_fields)

lemma example_second_run:
  "indexProject byteCount 10 (Inr [fileA, chunk1])
       (StoreObject (Some 1) [blobDigest byteCount chunk1, blobDigest byteCount fileA]
          (Some [(''a.py'', [blobDigest byteCount fileA]),
                 (''b.py'', [blobDigest byteCount chunk1])]))
       (reversedEcho byteCount) None =
     Some \<lparr>outcome = Inr \<lparr>status = Success,
                           message = ''Indexed 2 blobs (existing: 2, new: 0)'',
                           stats = Some (2, 2, 0)\<rparr>,
            document = StoreObject (Some 1)
                         [blobDigest byteCount fileA, blobDigest byteCount chunk1]
                         (Some [(''a.py'', [blobDigest byteCount fileA]),
                                (''b.py'', [blobDigest byteCount chunk1])]),
            saved = Some \<lparr>version = 1,
                           blob_names = [blobDigest byteCount fileA, blobDigest byteCount chunk1],
                           file_map = [(''a.py'', [blobDigest byteCount fileA]),
                                       (''b.py'', [blobDigest byteCount chunk1])]\<rparr>,
            posted = []\<rparr>"
  by (simp add: example_defs example_digests chunk_fields)

lemma example_first_index:
  "indexProject byteCount 10 (Inr [fileA, chunk1]) NoDocument (reversedEcho byteCount) None =
     Some \<lparr>outcome = Inr \<lparr>status = Success,
                           message = ''Indexed 2 blobs (existing: 0, new: 2)'',
                           stats = Some (2, 0, 2)\<rparr>,
            document = StoreObject (Some 1)
                         [blobDigest byteCount chunk1, blobDigest byteCount fileA]
                         (Some [(''a.py'', [blobDigest byteCount fileA]),
                                (''b.py'', [blobDigest byteCount chunk1])]),
            saved = Some \<lparr>version = 1,
                           blob_names = [blobDigest byteCount chunk1, blobDigest byteCount fileA],
                           file_map = [(''a.py'', [blobDigest byteCount fileA]),
                                       (''b.py'', [blobDigest byteCount chunk1])]\<rparr>,
            posted = [[fileA, chunk1]]\<rparr>"
  by (simp add: example_defs example_digests chunk_fields)

lemma example_split:
  "splitFileContent (Suc 0) ''b.py'' [CHR ''y'', CHR ''y'', LF, CHR ''z''] = Some [chunk1, chunk2]"
  by code_simp

lemma example_file_run:
  "indexFile byteCount 1 1
       \<lparr>relativePath = Some ''b.py'', excluded = False, extensionIndexed = True, isFile = True,
          readFile = Inr [CHR ''y'', CHR ''y'', LF, CHR ''z'']\<rparr>
       (StoreObject (Some 1) [''old''] (Some [(''b.py'', [''old''])]))
       (firstBatchOnly byteCount) None =
     Some \<lparr>outcome = Inr (plainResult Error ''File indexing failed''),
            document = StoreObject (Some 1) [''old''] (Some [(''b.py'', [''old''])]),
            saved = None, posted = [[chunk1], [chunk2]]\<rparr>"
  by (simp add: indexFile_def example_split hashFile_def hashFileBlob_eq example_defs
      example_digests chunk_fields)

text \<open>
  \<open>removeFileFromIndex\<close> at a root file \<open>constructor\<close> that the file map does not hold,
  and at a file \<open>notes\<close> in the same place: the first run writes the store again,
  dropping the digest no file lists; the second is skipped.
\<close>

lemma example_remove_prototype_key:
  "removeFileFromIndex (StoreObject (Some 1) [''old'', ''x''] (Some [(''a.py'', [''x''])])) None
       ''constructor'' ''File extension not indexed''
     = \<lparr>outcome = Inr (plainResult Success ''File extension not indexed''),
        document = StoreObject (Some 1) [''x''] (Some [(''a.py'', [''x''])]),
        saved = Some \<lparr>version = 1, blob_names = [''x''], file_map = [(''a.py'', [''x''])]\<rparr>,
        posted = []\<rparr>"
  "removeFileFromIndex (StoreObject (Some 1) [''old'', ''x''] (Some [(''a.py'', [''x''])])) None
       ''notes'' ''File extension not indexed''
     = \<lparr>outcome = Inr (plainResult Skipped ''File extension not indexed''),
        document = StoreObject (Some 1) [''old'', ''x''] (Some [(''a.py'', [''x''])]),
        saved = None, posted = []\<rparr>"
  by (simp_all add: removeFileFromIndex_def truthyAt_def objectPrototypeKeys_def
      collectBlobNames_def saveIndexStore_def plainResult_def newSet_def setAdd_def Let_def)

text \<open>
  The invariant theorem at a run of \<open>indexProject\<close> that commits after one of two batches failed.
\<close>

theorem commit_restores_invariant_witness:
  "\<exists>r s. indexProject byteCount 1 (Inr [chunk1, chunk2]) NoDocument (firstBatchOnly byteCount) None
             = Some r
     \<and> saved r = Some s
     \<and> document r = StoreObject (Some 1) (blob_names s) (Some (file_map s))
     \<and> loadIndexStore (document r) = s
     \<and> (\<forall>h. h \<in> set (blob_names s) \<longleftrightarrow> (\<exists>f hs. (f, hs) \<in> set (file_map s) \<and> h \<in> set hs))"
proof -
  let ?s = "\<lparr>version = 1, blob_names = [blobDigest byteCount chunk1],
             file_map = [(''b.py'', [blobDigest byteCount chunk1])]\<rparr>"
  let ?r = "\<lparr>outcome = Inr \<lparr>status = PartialSuccess,
                           message = ''Indexed 1 blobs (existing: 0, new: 1)'',
                           stats = Some (1, 0, 1)\<rparr>,
            document = StoreObject (Some 1) [blobDigest byteCount chunk1]
                         (Some [(''b.py'', [blobDigest byteCount chunk1])]),
            saved = Some ?s, posted = [[chunk1], [chunk2]]\<rparr>"
  have run: "indexProject byteCount 1 (Inr [chunk1, chunk2]) NoDocument (firstBatchOnly byteCount) None
      = Some ?r"
    by (rule example_partial_run)
  have sv: "saved ?r = Some ?s" by simp
  from commit_restores_invariant [OF disjI1 [OF run] sv] run sv show ?thesis
    by blast
qed

text \<open>
  The theorem at a run whose previous store lists a file \<open>gone.py\<close> with the digest \<open>old\<close>, and whose collection no longer has that file.
\<close>

theorem full_reindex_drops_uncollected_witness:
  "\<exists>r s. indexProject byteCount 10 (Inr [fileA, chunk1])
             (StoreObject (Some 1) [''old''] (Some [(''gone.py'', [''old''])]))
             (reversedEcho byteCount) None = Some r
     \<and> saved r = Some s
     \<and> map_of (file_map s) ''gone.py'' = None
     \<and> ''old'' \<notin> set (blob_names s)"
proof -
  let ?s = "\<lparr>version = 1,
             blob_names = [blobDigest byteCount chunk1, blobDigest byteCount fileA],
             file_map = [(''a.py'', [blobDigest byteCount fileA]),
                         (''b.py'', [blobDigest byteCount chunk1])]\<rparr>"
  let ?r = "\<lparr>outcome = Inr \<lparr>status = Success,
                           message = ''Indexed 2 blobs (existing: 0, new: 2)'',
                           stats = Some (2, 0, 2)\<rparr>,
            document = StoreObject (Some 1)
                         [blobDigest byteCount chunk1, blobDigest byteCount fileA]
                         (Some [(''a.py'', [blobDigest byteCount fileA]),
                                (''b.py'', [blobDigest byteCount chunk1])]),
            saved = Some ?s, posted = [[fileA, chunk1]]\<rparr>"
  have run: "indexProject byteCount 10 (Inr [fileA, chunk1])
             (StoreObject (Some 1) [''old''] (Some [(''gone.py'', [''old''])]))
             (reversedEcho byteCount) None = Some ?r"
    by (rule example_full_run)
  have sv: "saved ?r = Some ?s" by simp
  have gone: "''gone.py'' \<notin> sourcePath ` set [fileA, chunk1]"
    by (simp add: chunk_fields)
  have old: "''old'' \<notin> blobDigest byteCount ` set [fileA, chunk1]"
    by (simp add: blobDigest_not_short)
  from full_reindex_drops_uncollected [OF run sv] gone old
  have "map_of (file_map ?s) ''gone.py'' = None \<and> ''old'' \<notin> set (blob_names ?s)"
    by blast
  with run sv show ?thesis by blast
qed

text \<open>
  The theorem at a run in which the second of two batches fails.
\<close>

theorem partial_failure_containment_witness:
  "\<exists>r s. indexProject byteCount 1 (Inr [chunk1, chunk2]) NoDocument (firstBatchOnly byteCount) None
             = Some r
     \<and> saved r = Some s
     \<and> (\<forall>f. map_of (file_map s) f =
           (if filter (\<lambda>h. h \<in> set (blob_names s)) (fileDigests byteCount [chunk1, chunk2] f) = []
            then None
            else Some (filter (\<lambda>h. h \<in> set (blob_names s))
                         (fileDigests byteCount [chunk1, chunk2] f))))"
proof -
  let ?s = "\<lparr>version = 1, blob_names = [blobDigest byteCount chunk1],
             file_map = [(''b.py'', [blobDigest byteCount chunk1])]\<rparr>"
  let ?r = "\<lparr>outcome = Inr \<lparr>status = PartialSuccess,
                           message = ''Indexed 1 blobs (existing: 0, new: 1)'',
                           stats = Some (1, 0, 1)\<rparr>,
            document = StoreObject (Some 1) [blobDigest byteCount chunk1]
                         (Some [(''b.py'', [blobDigest byteCount chunk1])]),
            saved = Some ?s, posted = [[chunk1], [chunk2]]\<rparr>"
  have run: "indexProject byteCount 1 (Inr [chunk1, chunk2]) NoDocument (firstBatchOnly byteCount) None
      = Some ?r"
    by (rule example_partial_run)
  have sv: "saved ?r = Some ?s" by simp
  from partial_failure_containment [OF run sv] run sv show ?thesis
    by blast
qed

text \<open>
  C3 as stated fails. The file \<open>b.py\<close> is split in two blobs, each its own batch; the second batch fails; the committed \<open>file_map\<close> keeps \<open>b.py\<close> with the digest of its first blob only.
\<close>

theorem truncated_entry_counterexample:
  "indexProject byteCount 1 (Inr [chunk1, chunk2]) NoDocument (firstBatchOnly byteCount) None =
     Some \<lparr>outcome = Inr \<lparr>status = PartialSuccess,
                           message = ''Indexed 1 blobs (existing: 0, new: 1)'',
                           stats = Some (1, 0, 1)\<rparr>,
            document = StoreObject (Some 1) [blobDigest byteCount chunk1]
                         (Some [(''b.py'', [blobDigest byteCount chunk1])]),
            saved = Some \<lparr>version = 1, blob_names = [blobDigest byteCount chunk1],
                           file_map = [(''b.py'', [blobDigest byteCount chunk1])]\<rparr>,
            posted = [[chunk1], [chunk2]]\<rparr>
   \<and> fileDigests byteCount [chunk1, chunk2] ''b.py''
       = [blobDigest byteCount chunk1, blobDigest byteCount chunk2]
   \<and> blobDigest byteCount chunk2 \<noteq> blobDigest byteCount chunk1
   \<and> batchOutcome (firstBatchOnly byteCount) 1 [chunk1, chunk2]
        [blobDigest byteCount chunk1, blobDigest byteCount chunk2] 1 = None"
  using example_partial_run
  by (simp add: fileDigests_def chunk_fields example_digests batchOutcome_def firstBatchOnly_def
      checkBatch_def)

text \<open>
  C6 as stated fails. A first index of two files whose single batch is answered with the digests in reverse order returns \<open>success\<close>; the second run, with nothing changed, uploads nothing and writes \<open>blob_names\<close> in the other order, so the index file is not the one the first run wrote.
\<close>

theorem reindex_order_counterexample:
  "indexProject byteCount 10 (Inr [fileA, chunk1]) NoDocument (reversedEcho byteCount) None =
     Some \<lparr>outcome = Inr \<lparr>status = Success,
                           message = ''Indexed 2 blobs (existing: 0, new: 2)'',
                           stats = Some (2, 0, 2)\<rparr>,
            document = StoreObject (Some 1)
                         [blobDigest byteCount chunk1, blobDigest byteCount fileA]
                         (Some [(''a.py'', [blobDigest byteCount fileA]),
                                (''b.py'', [blobDigest byteCount chunk1])]),
            saved = Some \<lparr>version = 1,
                           blob_names = [blobDigest byteCount chunk1, blobDigest byteCount fileA],
                           file_map = [(''a.py'', [blobDigest byteCount fileA]),
                                       (''b.py'', [blobDigest byteCount chunk1])]\<rparr>,
            posted = [[fileA, chunk1]]\<rparr>
   \<and> indexProject byteCount 10 (Inr [fileA, chunk1])
       (StoreObject (Some 1) [blobDigest byteCount chunk1, blobDigest byteCount fileA]
          (Some [(''a.py'', [blobDigest byteCount fileA]),
                 (''b.py'', [blobDigest byteCount chunk1])]))
       (reversedEcho byteCount) None =
     Some \<lparr>outcome = Inr \<lparr>status = Success,
                           message = ''Indexed 2 blobs (existing: 2, new: 0)'',
                           stats = Some (2, 2, 0)\<rparr>,
            document = StoreObject (Some 1)
                         [blobDigest byteCount fileA, blobDigest byteCount chunk1]
                         (Some [(''a.py'', [blobDigest byteCount fileA]),
                                (''b.py'', [blobDigest byteCount chunk1])]),
            saved = Some \<lparr>version = 1,
                           blob_names = [blobDigest byteCount fileA, blobDigest byteCount chunk1],
                           file_map = [(''a.py'', [blobDigest byteCount fileA]),
                                       (''b.py'', [blobDigest byteCount chunk1])]\<rparr>,
            posted = []\<rparr>
   \<and> StoreObject (Some 1) [blobDigest byteCount fileA, blobDigest byteCount chunk1]
         (Some [(''a.py'', [blobDigest byteCount fileA]), (''b.py'', [blobDigest byteCount chunk1])])
     \<noteq> StoreObject (Some 1) [blobDigest byteCount chunk1, blobDigest byteCount fileA]
         (Some [(''a.py'', [blobDigest byteCount fileA]), (''b.py'', [blobDigest byteCount chunk1])])"
  using example_first_index example_second_run
  by (simp add: example_digests)

text \<open>
  The theorem at that first index.
\<close>

theorem reindex_is_stable_witness:
  "\<exists>r1 res1 r2.
       indexProject byteCount 10 (Inr [fileA, chunk1]) NoDocument (reversedEcho byteCount) None = Some r1
     \<and> outcome r1 = Inr res1 \<and> status res1 = Success
     \<and> indexProject byteCount 10 (Inr [fileA, chunk1]) (document r1) (reversedEcho byteCount) None
          = Some r2
     \<and> posted r2 = []
     \<and> indexProject byteCount 10 (Inr [fileA, chunk1]) (document r2) (reversedEcho byteCount) None
          = Some r2"
proof -
  let ?res = "\<lparr>status = Success, message = ''Indexed 2 blobs (existing: 0, new: 2)'',
               stats = Some (2, 0, 2)\<rparr>"
  let ?r = "\<lparr>outcome = Inr ?res,
            document = StoreObject (Some 1)
                         [blobDigest byteCount chunk1, blobDigest byteCount fileA]
                         (Some [(''a.py'', [blobDigest byteCount fileA]),
                                (''b.py'', [blobDigest byteCount chunk1])]),
            saved = Some \<lparr>version = 1,
                           blob_names = [blobDigest byteCount chunk1, blobDigest byteCount fileA],
                           file_map = [(''a.py'', [blobDigest byteCount fileA]),
                                       (''b.py'', [blobDigest byteCount chunk1])]\<rparr>,
            posted = [[fileA, chunk1]]\<rparr>"
  have run: "indexProject byteCount 10 (Inr [fileA, chunk1]) NoDocument (reversedEcho byteCount) None
      = Some ?r"
    by (rule example_first_index)
  have o: "outcome ?r = Inr ?res" by simp
  have st: "status ?res = Success" by simp
  from reindex_is_stable [OF run o st, of 10 "reversedEcho byteCount" 10 "reversedEcho byteCount"]
    run o st
  show ?thesis by blast
qed

text \<open>
  The theorem at a file of two chunks whose second batch fails: the index file keeps the old entry of \<open>b.py\<close>.
\<close>

theorem single_file_failure_commits_nothing_witness:
  "\<exists>r. indexFile byteCount 1 1
          \<lparr>relativePath = Some ''b.py'', excluded = False, extensionIndexed = True, isFile = True,
             readFile = Inr [CHR ''y'', CHR ''y'', LF, CHR ''z'']\<rparr>
          (StoreObject (Some 1) [''old''] (Some [(''b.py'', [''old''])]))
          (firstBatchOnly byteCount) None = Some r
     \<and> 1 < length (posted r)
     \<and> checkBatch (firstBatchOnly byteCount 1 (posted r ! 1))
          (map (blobDigest byteCount) (posted r ! 1)) = None
     \<and> outcome r = Inr (plainResult Error ''File indexing failed'')
     \<and> document r = StoreObject (Some 1) [''old''] (Some [(''b.py'', [''old''])])
     \<and> saved r = None"
proof -
  let ?r = "\<lparr>outcome = Inr (plainResult Error ''File indexing failed''),
            document = StoreObject (Some 1) [''old''] (Some [(''b.py'', [''old''])]),
            saved = None, posted = [[chunk1], [chunk2]]\<rparr>"
  have run: "indexFile byteCount 1 1
          \<lparr>relativePath = Some ''b.py'', excluded = False, extensionIndexed = True, isFile = True,
             readFile = Inr [CHR ''y'', CHR ''y'', LF, CHR ''z'']\<rparr>
          (StoreObject (Some 1) [''old''] (Some [(''b.py'', [''old''])]))
          (firstBatchOnly byteCount) None = Some ?r"
    by (rule example_file_run)
  have i: "1 < length (posted ?r)" by simp
  have f: "checkBatch (firstBatchOnly byteCount 1 (posted ?r ! 1))
          (map (blobDigest byteCount) (posted ?r ! 1)) = None"
    by (simp add: firstBatchOnly_def checkBatch_def)
  from single_file_failure_commits_nothing [OF run i f] run i f show ?thesis
    by blast
qed



section \<open>The retry policy and the ignore filter\<close>

lemma transient_iff:
  "transient e \<longleftrightarrow> responseStatus e \<noteq> Some 401 \<and> responseStatus e \<noteq> Some 403
     \<and> \<not> isCertificateError e \<and> isRetryable e"
  by (auto simp: transient_def isCertificateError_def isRetryable_def)

lemma retryLoop_advance:
  "attempt + n < maxRetries
   \<Longrightarrow> (\<And>j. attempt \<le> j \<Longrightarrow> j < attempt + n \<Longrightarrow> \<exists>e. fn j = Inl e \<and> transient e)
   \<Longrightarrow> \<exists>le. retryLoop fn maxRetries d attempt lastError slept
         = retryLoop fn maxRetries d (attempt + n) le
             (slept @ map (\<lambda>j. d * 2 ^ j) [attempt..<attempt + n])"
proof (induction n arbitrary: attempt lastError slept)
  case 0
  then show ?case by auto
next
  case (Suc n)
  obtain e where e: "fn attempt = Inl e" "transient e"
    using Suc.prems(2) [of attempt] by auto
  have lt: "attempt < maxRetries" "attempt \<noteq> maxRetries - 1"
    using Suc.prems(1) by simp_all
  have step: "retryLoop fn maxRetries d attempt lastError slept
      = retryLoop fn maxRetries d (attempt + 1) (Some e) (slept @ [d * 2 ^ attempt])"
    by (subst retryLoop.simps) (use e lt in \<open>simp add: transient_iff\<close>)
  have "\<exists>le. retryLoop fn maxRetries d (attempt + 1) (Some e) (slept @ [d * 2 ^ attempt])
      = retryLoop fn maxRetries d (attempt + 1 + n) le
          ((slept @ [d * 2 ^ attempt]) @ map (\<lambda>j. d * 2 ^ j) [attempt + 1..<attempt + 1 + n])"
    by (rule Suc.IH) (use Suc.prems in auto)
  then obtain le where "retryLoop fn maxRetries d (attempt + 1) (Some e) (slept @ [d * 2 ^ attempt])
      = retryLoop fn maxRetries d (attempt + 1 + n) le
          ((slept @ [d * 2 ^ attempt]) @ map (\<lambda>j. d * 2 ^ j) [attempt + 1..<attempt + 1 + n])"
    by blast
  moreover have "[attempt..<attempt + Suc n] = attempt # [attempt + 1..<attempt + 1 + n]"
    by (simp add: upt_conv_Cons)
  ultimately show ?case
    unfolding step by (intro exI [of _ le]) simp
qed

lemma retryRequest_reaches:
  assumes "k < maxRetries" and "\<And>j. j < k \<Longrightarrow> \<exists>e. fn j = Inl e \<and> transient e"
  shows "\<exists>le. retryRequest fn maxRetries d = retryLoop fn maxRetries d k le (delays d k)"
  using retryLoop_advance [of 0 k maxRetries fn d None "[]"] assms
  by (simp add: retryRequest_def delays_def)

text \<open>
  C8 (as amended). Let the first \<open>k\<close> calls of \<open>fn\<close> (\<open>k < maxRetries\<close>) fail with errors
  the loop retries. Then call \<open>k\<close> is made, after the waits \<open>retryDelay * 2^j\<close> for
  \<open>j = 0, ..., k - 1\<close> (the wait after the failure of attempt \<open>j\<close>, none before attempt
  0), and it decides the outcome by the status, the code and the message of the error:
  a value is returned; a 401, a 403 and a certificate failure are thrown at once with
  their translated messages; an error the loop retries, at the last attempt, is thrown
  with the translated message of its code (\<open>ECONNREFUSED\<close>, \<open>ETIMEDOUT\<close>, \<open>ENOTFOUND\<close>)
  or, for a response of status 500 or more with none of these codes, with its own
  message; any other error is thrown at once with its own message. Among the other
  errors is the timeout of the HTTP client itself, whose code is \<open>ECONNABORTED\<close>: it is
  not retried. In each case \<open>fn\<close> has been called \<open>k + 1\<close> times and is not called again.
\<close>

theorem retryRequest_classification:
  assumes "k < maxRetries" and "\<forall>j<k. \<exists>e. fn j = Inl e \<and> transient e"
  shows "(\<forall>v. fn k = Inr v \<longrightarrow> retryRequest fn maxRetries retryDelay = (Inr v, delays retryDelay k, k + 1))
    \<and> (\<forall>e. fn k = Inl e \<and> responseStatus e = Some 401
          \<longrightarrow> retryRequest fn maxRetries retryDelay = (Inl TokenInvalid, delays retryDelay k, k + 1))
    \<and> (\<forall>e. fn k = Inl e \<and> responseStatus e = Some 403
          \<longrightarrow> retryRequest fn maxRetries retryDelay = (Inl AccessDenied, delays retryDelay k, k + 1))
    \<and> (\<forall>e. fn k = Inl e \<and> responseStatus e \<noteq> Some 401 \<and> responseStatus e \<noteq> Some 403
             \<and> (code e \<in> {Some ''UNABLE_TO_VERIFY_LEAF_SIGNATURE'', Some ''CERT_HAS_EXPIRED'',
                           Some ''ERR_TLS_CERT_ALTNAME_INVALID''}
                 \<or> includesStr (errorText e) ''certificate''
                 \<or> includesStr (errorText e) ''altnames'')
          \<longrightarrow> retryRequest fn maxRetries retryDelay = (Inl CertificateFailed, delays retryDelay k, k + 1))
    \<and> (\<forall>e. fn k = Inl e \<and> transient e \<and> k = maxRetries - 1
          \<longrightarrow> retryRequest fn maxRetries retryDelay
              = (Inl (if code e = Some ''ECONNREFUSED'' then ConnectionRefused
                      else if code e = Some ''ETIMEDOUT'' then ConnectionTimedOut
                      else if code e = Some ''ENOTFOUND'' then AddressNotFound
                      else Original (errorText e)),
                 delays retryDelay (maxRetries - 1), maxRetries))
    \<and> (\<forall>e. fn k = Inl e \<and> responseStatus e \<noteq> Some 401 \<and> responseStatus e \<noteq> Some 403
             \<and> code e \<notin> {Some ''UNABLE_TO_VERIFY_LEAF_SIGNATURE'', Some ''CERT_HAS_EXPIRED'',
                           Some ''ERR_TLS_CERT_ALTNAME_INVALID''}
             \<and> \<not> includesStr (errorText e) ''certificate''
             \<and> \<not> includesStr (errorText e) ''altnames''
             \<and> code e \<notin> {Some ''ECONNREFUSED'', Some ''ETIMEDOUT'', Some ''ENOTFOUND''}
             \<and> (\<forall>st. responseStatus e = Some st \<longrightarrow> st < 500)
          \<longrightarrow> retryRequest fn maxRetries retryDelay
              = (Inl (Original (errorText e)), delays retryDelay k, k + 1))
    \<and> (\<forall>e. fn k = Inl e \<and> code e = Some ''ECONNABORTED'' \<and> responseStatus e = None
             \<and> \<not> includesStr (errorText e) ''certificate''
             \<and> \<not> includesStr (errorText e) ''altnames''
          \<longrightarrow> \<not> transient e
              \<and> retryRequest fn maxRetries retryDelay
                = (Inl (Original (errorText e)), delays retryDelay k, k + 1))
    \<and> delays retryDelay k = map (\<lambda>j. retryDelay * 2 ^ j) [0..<k]"
proof -
  obtain le where r: "retryRequest fn maxRetries retryDelay
      = retryLoop fn maxRetries retryDelay k le (delays retryDelay k)"
    using retryRequest_reaches [OF assms(1), of fn retryDelay] assms(2) by blast
  have nr: "friendlyMessage e = Original (errorText e)" if "\<not> isRetryable e" for e
    using that by (auto simp: isRetryable_def friendlyMessage_def)
  have unf: "retryLoop fn maxRetries retryDelay k le (delays retryDelay k) =
        (case fn k of
           Inr result \<Rightarrow> (Inr result, delays retryDelay k, k + 1)
         | Inl e \<Rightarrow>
             if responseStatus e = Some 401 then (Inl TokenInvalid, delays retryDelay k, k + 1)
             else if responseStatus e = Some 403 then (Inl AccessDenied, delays retryDelay k, k + 1)
             else if isCertificateError e then (Inl CertificateFailed, delays retryDelay k, k + 1)
             else if \<not> isRetryable e \<or> k = maxRetries - 1 then
               (Inl (friendlyMessage e), delays retryDelay k, k + 1)
             else
               retryLoop fn maxRetries retryDelay (k + 1) (Some e)
                 (delays retryDelay k @ [retryDelay * 2 ^ k]))"
    by (subst retryLoop.simps) (use assms(1) in simp)
  have last: "maxRetries - 1 + 1 = maxRetries" using assms(1) by simp
  have c1: "\<forall>v. fn k = Inr v \<longrightarrow> retryRequest fn maxRetries retryDelay = (Inr v, delays retryDelay k, k + 1)"
    unfolding r unf by simp
  have c2: "\<forall>e. fn k = Inl e \<and> responseStatus e = Some 401
          \<longrightarrow> retryRequest fn maxRetries retryDelay = (Inl TokenInvalid, delays retryDelay k, k + 1)"
    unfolding r unf by simp
  have c3: "\<forall>e. fn k = Inl e \<and> responseStatus e = Some 403
          \<longrightarrow> retryRequest fn maxRetries retryDelay = (Inl AccessDenied, delays retryDelay k, k + 1)"
    unfolding r unf by simp
  have c4: "\<forall>e. fn k = Inl e \<and> responseStatus e \<noteq> Some 401 \<and> responseStatus e \<noteq> Some 403
             \<and> (code e \<in> {Some ''UNABLE_TO_VERIFY_LEAF_SIGNATURE'', Some ''CERT_HAS_EXPIRED'',
                           Some ''ERR_TLS_CERT_ALTNAME_INVALID''}
                 \<or> includesStr (errorText e) ''certificate''
                 \<or> includesStr (errorText e) ''altnames'')
          \<longrightarrow> retryRequest fn maxRetries retryDelay = (Inl CertificateFailed, delays retryDelay k, k + 1)"
    unfolding r unf by (auto simp: isCertificateError_def)
  have c5: "\<forall>e. fn k = Inl e \<and> transient e \<and> k = maxRetries - 1
          \<longrightarrow> retryRequest fn maxRetries retryDelay
              = (Inl (if code e = Some ''ECONNREFUSED'' then ConnectionRefused
                      else if code e = Some ''ETIMEDOUT'' then ConnectionTimedOut
                      else if code e = Some ''ENOTFOUND'' then AddressNotFound
                      else Original (errorText e)),
                 delays retryDelay (maxRetries - 1), maxRetries)"
    unfolding r unf using last by (auto simp: transient_iff friendlyMessage_def)
  have c6: "\<forall>e. fn k = Inl e \<and> responseStatus e \<noteq> Some 401 \<and> responseStatus e \<noteq> Some 403
             \<and> code e \<notin> {Some ''UNABLE_TO_VERIFY_LEAF_SIGNATURE'', Some ''CERT_HAS_EXPIRED'',
                           Some ''ERR_TLS_CERT_ALTNAME_INVALID''}
             \<and> \<not> includesStr (errorText e) ''certificate''
             \<and> \<not> includesStr (errorText e) ''altnames''
             \<and> code e \<notin> {Some ''ECONNREFUSED'', Some ''ETIMEDOUT'', Some ''ENOTFOUND''}
             \<and> (\<forall>st. responseStatus e = Some st \<longrightarrow> st < 500)
          \<longrightarrow> retryRequest fn maxRetries retryDelay
              = (Inl (Original (errorText e)), delays retryDelay k, k + 1)"
  proof (intro allI impI)
    fix e
    assume a: "fn k = Inl e \<and> responseStatus e \<noteq> Some 401 \<and> responseStatus e \<noteq> Some 403
             \<and> code e \<notin> {Some ''UNABLE_TO_VERIFY_LEAF_SIGNATURE'', Some ''CERT_HAS_EXPIRED'',
                           Some ''ERR_TLS_CERT_ALTNAME_INVALID''}
             \<and> \<not> includesStr (errorText e) ''certificate''
             \<and> \<not> includesStr (errorText e) ''altnames''
             \<and> code e \<notin> {Some ''ECONNREFUSED'', Some ''ETIMEDOUT'', Some ''ENOTFOUND''}
             \<and> (\<forall>st. responseStatus e = Some st \<longrightarrow> st < 500)"
    then have nc: "\<not> isCertificateError e" by (simp add: isCertificateError_def)
    from a have nretry: "\<not> isRetryable e"
      by (auto simp: isRetryable_def split: option.splits)
    from a nc nretry show "retryRequest fn maxRetries retryDelay
              = (Inl (Original (errorText e)), delays retryDelay k, k + 1)"
      unfolding r unf by (simp add: nr)
  qed
  have c7: "\<forall>e. fn k = Inl e \<and> code e = Some ''ECONNABORTED'' \<and> responseStatus e = None
             \<and> \<not> includesStr (errorText e) ''certificate''
             \<and> \<not> includesStr (errorText e) ''altnames''
          \<longrightarrow> \<not> transient e
              \<and> retryRequest fn maxRetries retryDelay
                = (Inl (Original (errorText e)), delays retryDelay k, k + 1)"
  proof (intro allI impI)
    fix e
    assume a: "fn k = Inl e \<and> code e = Some ''ECONNABORTED'' \<and> responseStatus e = None
             \<and> \<not> includesStr (errorText e) ''certificate''
             \<and> \<not> includesStr (errorText e) ''altnames''"
    then have nc: "\<not> isCertificateError e" by (simp add: isCertificateError_def)
    from a have nretry: "\<not> isRetryable e" by (simp add: isRetryable_def)
    from a have nt: "\<not> transient e" by (simp add: transient_def)
    from a nc nretry nt show "\<not> transient e
              \<and> retryRequest fn maxRetries retryDelay
                = (Inl (Original (errorText e)), delays retryDelay k, k + 1)"
      unfolding r unf by (simp add: nr)
  qed
  have c8: "delays retryDelay k = map (\<lambda>j. retryDelay * 2 ^ j) [0..<k]"
    by (simp add: delays_def)
  from c1 c2 c3 c4 c5 c6 c7 c8 show ?thesis by blast
qed

lemma transient_examples: "transient connectTimedOut" "transient serverError"
  by (simp_all add: transient_def connectTimedOut_def serverError_def)

text \<open>
  C8 as stated fails. With three attempts and a delay of 1000: against a server that
  always answers 500, the error thrown carries the message of the last error, not a
  translated one, and the waits are 1000 (before attempt 1) and 2000 (before attempt
  2), not \<open>1000 * 2^1\<close> and \<open>1000 * 2^2\<close>; a request that runs into the client's timeout
  is thrown after the first call, with no wait and with its own message, and so is a
  name lookup that fails with \<open>EAI_AGAIN\<close>.
\<close>

theorem retryRequest_counterexample:
  "retryRequest (\<lambda>attempt. Inl serverError :: RequestError + unit) 3 1000
     = (Inl (Original ''Request failed with status code 500''), [1000, 2000], 3)
   \<and> (1000::nat) \<noteq> 1000 * 2 ^ 1
   \<and> retryRequest (\<lambda>attempt. Inl requestTimedOut :: RequestError + unit) 3 1000
     = (Inl (Original ''timeout of 30000ms exceeded''), [], 1)
   \<and> retryRequest (\<lambda>attempt. Inl lookupFailedTemporarily :: RequestError + unit) 3 1000
     = (Inl (Original ''getaddrinfo EAI_AGAIN api.example.com''), [], 1)"
  by (simp add: retryRequest_def retryLoop.simps serverError_def requestTimedOut_def
      lookupFailedTemporarily_def isCertificateError_def isRetryable_def friendlyMessage_def)

text \<open>
  The theorem at four runs: two connection timeouts then a value; connection timeouts
  to the last attempt; a 500 then a 401; a 500 then the client's own timeout.
\<close>

theorem retryRequest_classification_witness:
  "(2::nat) < 3
   \<and> (if (0::nat) < 2 then Inl connectTimedOut else Inr (5::nat)) = Inl connectTimedOut
   \<and> (if (1::nat) < 2 then Inl connectTimedOut else Inr (5::nat)) = Inl connectTimedOut
   \<and> transient connectTimedOut
   \<and> retryRequest (\<lambda>attempt. if attempt < 2 then Inl connectTimedOut else Inr (5::nat)) 3 1000
       = (Inr 5, [1000, 2000], 3)
   \<and> retryRequest (\<lambda>attempt. Inl connectTimedOut :: RequestError + unit) 3 1000
       = (Inl ConnectionTimedOut, [1000, 2000], 3)
   \<and> retryRequest (\<lambda>attempt. if attempt < 1 then Inl serverError else Inl unauthorized
                      :: RequestError + unit) 3 1000
       = (Inl TokenInvalid, [1000], 2)
   \<and> retryRequest (\<lambda>attempt. if attempt < 1 then Inl serverError else Inl requestTimedOut
                      :: RequestError + unit) 3 1000
       = (Inl (Original ''timeout of 30000ms exceeded''), [1000], 2)"
proof -
  have k: "(2::nat) < 3" by simp
  have d2: "delays 1000 2 = [1000, 2000]" by (simp add: delays_def upt_rec)
  have d1: "delays 1000 1 = [1000]" by (simp add: delays_def)
  have a: "retryRequest (\<lambda>attempt. if attempt < 2 then Inl connectTimedOut else Inr (5::nat)) 3 1000
       = (Inr 5, [1000, 2000], 3)"
    using retryRequest_classification
      [of 2 3 "\<lambda>attempt. if attempt < 2 then Inl connectTimedOut else Inr (5::nat)" 1000]
      transient_examples d2 by simp
  have b: "retryRequest (\<lambda>attempt. Inl connectTimedOut :: RequestError + unit) 3 1000
       = (Inl ConnectionTimedOut, [1000, 2000], 3)"
    using retryRequest_classification
      [of 2 3 "\<lambda>attempt. Inl connectTimedOut :: RequestError + unit" 1000]
      transient_examples d2 by (simp add: connectTimedOut_def)
  have c: "retryRequest (\<lambda>attempt. if attempt < 1 then Inl serverError else Inl unauthorized
                      :: RequestError + unit) 3 1000
       = (Inl TokenInvalid, [1000], 2)"
    using retryRequest_classification
      [of 1 3 "\<lambda>attempt. if attempt < 1 then Inl serverError else Inl unauthorized
                      :: RequestError + unit" 1000]
      transient_examples d1 by (simp add: unauthorized_def)
  have d: "retryRequest (\<lambda>attempt. if attempt < 1 then Inl serverError else Inl requestTimedOut
                      :: RequestError + unit) 3 1000
       = (Inl (Original ''timeout of 30000ms exceeded''), [1000], 2)"
    using retryRequest_classification
      [of 1 3 "\<lambda>attempt. if attempt < 1 then Inl serverError else Inl requestTimedOut
                      :: RequestError + unit" 1000]
      transient_examples d1 by (simp add: requestTimedOut_def)
  show ?thesis using a b c d transient_examples by simp
qed

lemma toRegexSource_Nil: "toRegexSource [] = []"
  by (simp add: toRegexSource_def replaceAll_def)

lemma toRegexSource_Cons:
  "toRegexSource (c # cs) =
     (if c = CHR ''*'' then ''.*'' else if c = CHR ''?'' then ''.'' else [c]) @ toRegexSource cs"
  by (simp add: toRegexSource_def replaceAll_def)

lemma toRegexSource_head: "toRegexSource cs = d # ds \<Longrightarrow> d \<noteq> CHR ''*''"
  by (cases cs) (auto simp: toRegexSource_Nil toRegexSource_Cons split: if_splits)

lemma parseRegex_dot:
  "parseRegex (CHR ''.'' # toRegexSource cs) = map_option ((#) AnyChar) (parseRegex (toRegexSource cs))"
proof (cases "toRegexSource cs")
  case Nil
  then show ?thesis by simp
next
  case (Cons d ds)
  with toRegexSource_head [OF Cons] show ?thesis by simp
qed

lemma parseRegex_toRegexSource:
  assumes "\<forall>c\<in>set pattern. c = CHR ''*'' \<or> c = CHR ''?'' \<or> \<not> regexSpecial c"
  shows "\<exists>items. parseRegex (toRegexSource pattern) = Some items
    \<and> (\<forall>s. (\<forall>c\<in>set s. \<not> lineTerminator c) \<longrightarrow> regexTest items s = globMatch pattern s)"
  using assms
proof (induction pattern)
  case Nil
  then show ?case by (simp add: toRegexSource_Nil)
next
  case (Cons p ps)
  then obtain items where items: "parseRegex (toRegexSource ps) = Some items"
    and ih: "\<And>s. (\<forall>c\<in>set s. \<not> lineTerminator c) \<Longrightarrow> regexTest items s = globMatch ps s"
    by auto
  consider (star) "p = CHR ''*''" | (quest) "p = CHR ''?''"
    | (lit) "p \<noteq> CHR ''*''" "p \<noteq> CHR ''?''" "\<not> regexSpecial p"
    using Cons.prems by auto
  then show ?case
  proof cases
    case star
    have p: "parseRegex (toRegexSource (p # ps)) = Some (AnyRun # items)"
      using star items by (simp add: toRegexSource_Cons)
    have "regexTest (AnyRun # items) s = globMatch (p # ps) s"
      if "\<forall>c\<in>set s. \<not> lineTerminator c" for s
      using that
    proof (induction s)
      case Nil
      then show ?case using ih [of "[]"] star by simp
    next
      case (Cons x xs)
      then show ?case using ih [of "x # xs"] star by simp
    qed
    with p show ?thesis by blast
  next
    case quest
    have p: "parseRegex (toRegexSource (p # ps)) = Some (AnyChar # items)"
      using quest items by (simp add: toRegexSource_Cons parseRegex_dot del: parseRegex.simps)
    have "regexTest (AnyChar # items) s = globMatch (p # ps) s"
      if "\<forall>c\<in>set s. \<not> lineTerminator c" for s
      using that ih quest by (cases s) auto
    with p show ?thesis by blast
  next
    case lit
    have "p \<noteq> CHR ''.''" using lit(3) by (auto simp: regexSpecial_def)
    then have p: "parseRegex (toRegexSource (p # ps)) = Some (Literal p # items)"
      using lit items by (simp add: toRegexSource_Cons)
    have "regexTest (Literal p # items) s = globMatch (p # ps) s"
      if "\<forall>c\<in>set s. \<not> lineTerminator c" for s
      using that ih lit by (cases s) auto
    with p show ?thesis by blast
  qed
qed

lemma matchPattern_glob:
  assumes "\<forall>c\<in>set pattern. c = CHR ''*'' \<or> c = CHR ''?'' \<or> \<not> regexSpecial c"
    and "\<forall>c\<in>set str. \<not> lineTerminator c"
  shows "matchPattern str pattern = Some (globMatch pattern str)"
  using parseRegex_toRegexSource [OF assms(1)] assms(2)
  by (auto simp: matchPattern_def)

text \<open>
  C9. The filter at the pattern \<open>*.so\<close> (one of the documented defaults) and the
  directory \<open>models/torso\<close>: \<open>matchPattern\<close> accepts the part \<open>torso\<close>, because the dot of
  the pattern reaches \<open>RegExp\<close> unescaped and matches any character, so the path is
  excluded. Under the glob semantics of the claim neither a part nor the whole path
  matches the pattern.
\<close>

theorem exclude_pattern_dot_is_wildcard:
  "matchPattern ''torso'' ''*.so'' = Some True
   \<and> globMatch ''*.so'' ''torso'' = False
   \<and> shouldExclude [''*.so''] ''models/torso'' None None = Some True
   \<and> splitOn (CHR ''/'') [] ''models/torso'' = [''models'', ''torso'']
   \<and> globMatch ''*.so'' ''models'' = False
   \<and> globMatch ''*.so'' ''models/torso'' = False"
  by code_simp

section \<open>The digest\<close>

text \<open>
  C7 (as amended). The digest is a string of 64 lowercase hexadecimal digits, and two
  (path, content) pairs have the same digest exactly when SHA-256 agrees on the two byte
  strings "bytes of the path followed by bytes of the content". The pair itself is not
  recoverable from that byte string: no separator is hashed.
\<close>

theorem calculateBlobName_digest:
  "length (calculateBlobName sha256 p c) = 64
   \<and> set (calculateBlobName sha256 p c) \<subseteq> set ''0123456789abcdef''
   \<and> (calculateBlobName sha256 p1 c1 = calculateBlobName sha256 p2 c2
        \<longleftrightarrow> sha256 (utf8 p1 @ utf8 c1) = sha256 (utf8 p2 @ utf8 c2))"
proof -
  have inj: "toHex v = toHex w \<longleftrightarrow> v = w" for v w
    using toHex_inj by blast
  show ?thesis
    unfolding calculateBlobName_def inj
    using length_toHex set_toHex by blast
qed

text \<open>
  C7 as stated fails: the pairs (ab, c) and (a, bc) differ, and their digests are equal
  whatever function SHA-256 is, because both feed the bytes of abc to the hash.
\<close>

theorem calculateBlobName_separator_counterexample:
  "(''ab'', ''c'') \<noteq> (''a'', ''bc'')
   \<and> (\<forall>sha256. calculateBlobName sha256 ''ab'' ''c'' = calculateBlobName sha256 ''a'' ''bc'')"
  by (simp add: calculateBlobName_def utf8_def)

end
